theory Spec2Isabelle
  imports Main
begin

section \<open>The capture pipeline of main.py\<close>

text \<open>
  The program drives a fleet of cameras through the vendor's library. The library, the
  cameras, the clock, the console and the frame writer are outside the program; what
  they answer in a run is given to the model as data (an \<open>env\<close>), and what the program
  does to them is recorded in a \<open>world\<close> that every function takes and returns.
\<close>

subsection \<open>Data\<close>

type_synonym dev = nat
  \<comment> \<open>a device handle, as returned by \<open>system.create_device()\<close>\<close>

type_synonym bytes = "nat list"

text \<open>
  Exceptions. All of them are instances of Python's \<open>Exception\<close>, which is what
  \<open>except Exception\<close> catches: the library's errors, a timeout of \<open>get_buffer\<close>,
  \<open>IndexError\<close> of \<open>devices[0]\<close>, \<open>EOFError\<close> of \<open>input\<close>.
\<close>

datatype exn = IndexError | EOFError | TimeoutError string | DeviceError string

fun str :: "exn \<Rightarrow> string" where
  "str IndexError = ''list index out of range''"
| "str EOFError = ''EOF when reading a line''"
| "str (TimeoutError m) = m"
| "str (DeviceError m) = m"

text \<open>
  Image buffers are objects with identity. A buffer is either a slot of a device's own
  pool, handed out by \<open>get_buffer\<close> and given back by \<open>requeue_buffer\<close>, or a buffer
  that \<open>BufferFactory.copy\<close> created for the caller.
\<close>

datatype bufref = DeviceBuf dev nat | CopyBuf nat

text \<open>The tuple \<open>(buffer, batch, serial)\<close> that travels through the queue.\<close>

type_synonym frame_task = "bufref \<times> int \<times> string"

definition buffer_of :: "frame_task \<Rightarrow> bufref" where
  "buffer_of t = fst t"

definition batch_of :: "frame_task \<Rightarrow> int" where
  "batch_of t = fst (snd t)"

definition serial_of :: "frame_task \<Rightarrow> string" where
  "serial_of t = snd (snd t)"

text \<open>Commands that reach a device or the transport layer, in the order they are issued.\<close>

datatype event =
    EvLatch dev
  | EvReadLatchValue dev
  | EvSetExecuteTime int
  | EvFireCommand
  | EvTransferStart dev
  | EvGetBuffer dev nat
  | EvTransferStop dev
  | EvReadSerial dev
  | EvCopy bufref
  | EvRequeue dev bufref

text \<open>
  What one device answers during one trigger cycle: \<open>None\<close> (or \<open>Inr\<close>) when the call
  returns, the exception when it raises. \<open>get_buffer\<close> answers with the slot of the pool
  that holds the frame and the frame's bytes; \<open>refill\<close> is what the device writes into a
  slot once it has it back.
\<close>

record responses =
  PtpDataSetLatch :: "exn option"
  PtpDataSetLatchValue :: "exn + int"
  TransferStart :: "exn option"
  get_buffer :: "exn + nat \<times> bytes"
  TransferStop :: "exn option"
  DeviceSerialNumber :: "exn + string"
  requeue_buffer :: "exn option"
  refill :: bytes

record env =
  device :: "dev \<Rightarrow> responses"
  ActionCommandExecuteTime :: "exn option"
  ActionCommandFireCommand :: "exn option"
  BufferFactory_copy :: "bufref \<Rightarrow> exn option"

record world =
  queue :: "frame_task list"
  store :: "bufref \<Rightarrow> bytes"
  next_copy :: nat
  held :: "bufref list"
  execute_time :: "int option"
  trace :: "event list"
  stdout :: "string list"

subsection \<open>Statements that may raise\<close>

type_synonym 'a stmt = "world \<Rightarrow> (exn + 'a) \<times> world"

definition returns :: "'a \<Rightarrow> 'a stmt" where
  "returns x w = (Inr x, w)"

definition raises :: "exn \<Rightarrow> 'a stmt" where
  "raises e w = (Inl e, w)"

definition andthen :: "'a stmt \<Rightarrow> ('a \<Rightarrow> 'b stmt) \<Rightarrow> 'b stmt" where
  "andthen m f w = (case m w of (Inl e, w') \<Rightarrow> (Inl e, w') | (Inr x, w') \<Rightarrow> f x w')"

definition emit :: "event \<Rightarrow> unit stmt" where
  "emit ev w = (Inr (), w\<lparr>trace := trace w @ [ev]\<rparr>)"

definition print :: "string \<Rightarrow> unit stmt" where
  "print s w = (Inr (), w\<lparr>stdout := stdout w @ [s]\<rparr>)"

definition outcome :: "exn option \<Rightarrow> unit stmt" where
  "outcome r = (case r of None \<Rightarrow> returns () | Some e \<Rightarrow> raises e)"

definition answer :: "exn + 'a \<Rightarrow> 'a stmt" where
  "answer r = (case r of Inl e \<Rightarrow> raises e | Inr v \<Rightarrow> returns v)"

subsection \<open>The device interface and the library calls of \<open>fire_cameras\<close>\<close>

text \<open>
  Modelled from the spec: the Device Interface, the transport-layer node map and
  \<open>BufferFactory.copy\<close> belong to the vendor's library, which is not part of the
  source. Each call is recorded and then answers as the environment says.
\<close>

definition execute_PtpDataSetLatch :: "env \<Rightarrow> dev \<Rightarrow> unit stmt" where
  "execute_PtpDataSetLatch en d =
     andthen (emit (EvLatch d)) (\<lambda>_. outcome (PtpDataSetLatch (device en d)))"

definition read_PtpDataSetLatchValue :: "env \<Rightarrow> dev \<Rightarrow> int stmt" where
  "read_PtpDataSetLatchValue en d =
     andthen (emit (EvReadLatchValue d)) (\<lambda>_. answer (PtpDataSetLatchValue (device en d)))"

definition set_ActionCommandExecuteTime :: "env \<Rightarrow> int \<Rightarrow> unit stmt" where
  "set_ActionCommandExecuteTime en t =
     andthen (emit (EvSetExecuteTime t)) (\<lambda>_.
     andthen (outcome (ActionCommandExecuteTime en)) (\<lambda>_.
     (\<lambda>w. (Inr (), w\<lparr>execute_time := Some t\<rparr>))))"

definition execute_ActionCommandFireCommand :: "env \<Rightarrow> unit stmt" where
  "execute_ActionCommandFireCommand en =
     andthen (emit EvFireCommand) (\<lambda>_. outcome (ActionCommandFireCommand en))"

definition execute_TransferStart :: "env \<Rightarrow> dev \<Rightarrow> unit stmt" where
  "execute_TransferStart en d =
     andthen (emit (EvTransferStart d)) (\<lambda>_. outcome (TransferStart (device en d)))"

text \<open>
  \<open>device.get_buffer(timeout=500)\<close>: on success the device fills a slot of its pool
  and hands it out; the slot stays out until it is requeued.
\<close>

definition device_get_buffer :: "env \<Rightarrow> dev \<Rightarrow> nat \<Rightarrow> bufref stmt" where
  "device_get_buffer en d timeout =
     andthen (emit (EvGetBuffer d timeout)) (\<lambda>_.
     andthen (answer (get_buffer (device en d))) (\<lambda>(slot, img).
     (\<lambda>w. (Inr (DeviceBuf d slot),
            w\<lparr>store := (store w)(DeviceBuf d slot := img),
              held := held w @ [DeviceBuf d slot]\<rparr>))))"

definition execute_TransferStop :: "env \<Rightarrow> dev \<Rightarrow> unit stmt" where
  "execute_TransferStop en d =
     andthen (emit (EvTransferStop d)) (\<lambda>_. outcome (TransferStop (device en d)))"

definition read_DeviceSerialNumber :: "env \<Rightarrow> dev \<Rightarrow> string stmt" where
  "read_DeviceSerialNumber en d =
     andthen (emit (EvReadSerial d)) (\<lambda>_. answer (DeviceSerialNumber (device en d)))"

text \<open>
  \<open>BufferFactory.copy(buffer)\<close>: a new buffer, owned by the caller, with the bytes the
  argument holds at the time of the call.
\<close>

definition copy :: "env \<Rightarrow> bufref \<Rightarrow> bufref stmt" where
  "copy en buffer =
     andthen (emit (EvCopy buffer)) (\<lambda>_.
     andthen (outcome (BufferFactory_copy en buffer)) (\<lambda>_.
     (\<lambda>w. (Inr (CopyBuf (next_copy w)),
            w\<lparr>store := (store w)(CopyBuf (next_copy w) := store w buffer),
              next_copy := Suc (next_copy w)\<rparr>))))"

text \<open>\<open>buffer_queue.put(task)\<close> on an unbounded \<open>queue.Queue\<close>.\<close>

definition put :: "frame_task \<Rightarrow> unit stmt" where
  "put task w = (Inr (), w\<lparr>queue := queue w @ [task]\<rparr>)"

text \<open>
  \<open>device.requeue_buffer(buffer)\<close>: on success the slot is the device's again, and
  the device may overwrite it.
\<close>

definition device_requeue_buffer :: "env \<Rightarrow> dev \<Rightarrow> bufref \<Rightarrow> unit stmt" where
  "device_requeue_buffer en d buffer =
     andthen (emit (EvRequeue d buffer)) (\<lambda>_.
     andthen (outcome (requeue_buffer (device en d))) (\<lambda>_.
     (\<lambda>w. (Inr (),
            w\<lparr>store := (store w)(buffer := refill (device en d)),
              held := remove1 buffer (held w)\<rparr>))))"

subsection \<open>\<open>fire_cameras\<close>\<close>

definition PTP_DELTA :: int where
  "PTP_DELTA = 10000000"

text \<open>\<open>devices[0]\<close>\<close>

definition first_device :: "dev list \<Rightarrow> dev stmt" where
  "first_device devices = (case devices of [] \<Rightarrow> raises IndexError | d # _ \<Rightarrow> returns d)"

text \<open>The body of the \<open>try\<close> of the retrieval loop (lines 111 to 119).\<close>

definition retrieve :: "env \<Rightarrow> int \<Rightarrow> dev \<Rightarrow> unit stmt" where
  "retrieve en batch d =
     andthen (execute_TransferStart en d) (\<lambda>_.
     andthen (device_get_buffer en d 500) (\<lambda>buffer.
     andthen (execute_TransferStop en d) (\<lambda>_.
     andthen (print ''.'') (\<lambda>_.
     andthen (read_DeviceSerialNumber en d) (\<lambda>serial.
     andthen (copy en buffer) (\<lambda>copied.
     andthen (put (copied, batch, serial)) (\<lambda>_.
     device_requeue_buffer en d buffer)))))))"

text \<open>\<open>try: ... except Exception as e: print(e)\<close>\<close>

definition try_retrieve :: "env \<Rightarrow> int \<Rightarrow> dev \<Rightarrow> world \<Rightarrow> world" where
  "try_retrieve en batch d w =
     (case retrieve en batch d w of
        (Inl e, w') \<Rightarrow> snd (print (str e) w')
      | (Inr _, w') \<Rightarrow> w')"

definition fire_cameras :: "env \<Rightarrow> dev list \<Rightarrow> int \<Rightarrow> unit stmt" where
  "fire_cameras en devices batch =
     andthen (first_device devices) (\<lambda>d.
     andthen (execute_PtpDataSetLatch en d) (\<lambda>_.
     andthen (read_PtpDataSetLatchValue en d) (\<lambda>ptp_time.
     andthen (set_ActionCommandExecuteTime en (ptp_time + PTP_DELTA)) (\<lambda>_.
     andthen (execute_ActionCommandFireCommand en) (\<lambda>_.
     andthen (print ''Retrieving images...'') (\<lambda>_.
     andthen (\<lambda>w. (Inr (), fold (try_retrieve en batch) devices w)) (\<lambda>_.
     print '' | OK'')))))))"

subsection \<open>\<open>wait_for_sync\<close>\<close>

text \<open>
  \<open>[d.nodemap["PtpStatus"].value for d in devices]\<close>: the devices are read in order,
  and the first read that raises ends the comprehension.
\<close>

fun read_all :: "(dev \<Rightarrow> exn + string) \<Rightarrow> dev list \<Rightarrow> exn + string list" where
  "read_all rd [] = Inr []"
| "read_all rd (d # ds) =
     (case rd d of
        Inl e \<Rightarrow> Inl e
      | Inr s \<Rightarrow> (case read_all rd ds of Inl e \<Rightarrow> Inl e | Inr ss \<Rightarrow> Inr (s # ss)))"

text \<open>
  The state of the loop: the local \<open>masters\<close>, the number of polls made, the seconds
  asked of \<open>time.sleep\<close>, and what was printed.
\<close>

record sync =
  masters :: nat
  polls :: nat
  slept :: nat
  printed :: "string list"

text \<open>
  \<open>PtpStatus k d\<close> is what device \<open>d\<close> answers at the \<open>k\<close>-th poll. The loop has no
  bound: where it runs forever the value is \<open>None\<close>.
\<close>

partial_function (option) sync_loop ::
  "(nat \<Rightarrow> dev \<Rightarrow> exn + string) \<Rightarrow> dev list \<Rightarrow> sync \<Rightarrow> (exn + sync) option" where
  "sync_loop PtpStatus devices s =
     (if masters s \<noteq> 1 then
        (case read_all (PtpStatus (polls s)) devices of
           Inl e \<Rightarrow> Some (Inl e)
         | Inr status \<Rightarrow>
             sync_loop PtpStatus devices
               \<lparr>masters = count_list status ''Master'',
                polls = Suc (polls s),
                slept = slept s + 2,
                printed = printed s @ [''.'']\<rparr>)
      else Some (Inr (s\<lparr>printed := printed s @ ['' | OK '']\<rparr>)))"

definition wait_for_sync ::
  "(nat \<Rightarrow> dev \<Rightarrow> exn + string) \<Rightarrow> dev list \<Rightarrow> (exn + sync) option" where
  "wait_for_sync PtpStatus devices =
     sync_loop PtpStatus devices
       \<lparr>masters = 0, polls = 0, slept = 0, printed = [''Waiting for PTP Sync...'']\<rparr>"

subsection \<open>\<open>save_image_buffers\<close>\<close>

text \<open>Python's \<open>{batch:03}\<close> for an \<open>int\<close>: sign-aware zero padding to width 3.\<close>

definition digit :: "nat \<Rightarrow> char" where
  "digit n = ''0123456789'' ! n"

fun decimal :: "nat \<Rightarrow> string" where
  "decimal n = (if n < 10 then [digit n] else decimal (n div 10) @ [digit (n mod 10)])"

declare decimal.simps [simp del]

definition zfill :: "nat \<Rightarrow> string \<Rightarrow> string" where
  "zfill width s = replicate (width - length s) (CHR ''0'') @ s"

definition format_03 :: "int \<Rightarrow> string" where
  "format_03 n =
     (if n < 0 then CHR ''-'' # zfill 2 (decimal (nat (- n))) else zfill 3 (decimal (nat n)))"

text \<open>\<open>f"images/{sessionID}/Scene_{batch:03}/cam_{serial}.raw"\<close>\<close>

definition frame_path :: "string \<Rightarrow> int \<Rightarrow> string \<Rightarrow> string" where
  "frame_path sessionID batch serial =
     ''images/'' @ sessionID @ ''/Scene_'' @ format_03 batch @ ''/cam_'' @ serial @ ''.raw''"

text \<open>
  The worker runs in a thread of its own, beside the main thread that fills the queue
  and clears the flag. The queue and the flag are shared; \<open>queue.Queue\<close> and
  \<open>multiprocessing.Value\<close> make each single call on them atomic. The worker is
  therefore modelled in small steps, one shared access per step, and a run of the
  program is a schedule that interleaves the worker's steps with the main thread's.

  The places of the worker between two steps:
\<close>

datatype place =
    Outer_to_do  \<comment> \<open>about to read \<open>to_do.value\<close> in the outer condition\<close>
  | Outer_empty  \<comment> \<open>the flag read 0; about to call \<open>buffer_queue.empty()\<close> in the outer condition\<close>
  | Inner_empty  \<comment> \<open>about to call \<open>buffer_queue.empty()\<close> in the inner condition\<close>
  | Get  \<comment> \<open>about to call \<open>buffer_queue.get()\<close>\<close>
  | Save frame_task  \<comment> \<open>holds a task; about to call \<open>writer.save\<close>\<close>
  | Sleep  \<comment> \<open>about to call \<open>time.sleep(1)\<close>\<close>
  | Returned  \<comment> \<open>the outer loop has ended and the function has returned\<close>
  | Raised exn  \<comment> \<open>the function has ended with an exception\<close>

record pipeline =
  buffer_queue :: "frame_task list"
  to_do :: int
  pc :: place
  saved :: "(bufref \<times> string) list"
  naps :: nat

text \<open>
  Modelled from the spec: the Frame Writer (\<open>Writer.save\<close> of the vendor's library) is
  not part of the source; \<open>save buffer path\<close> says whether the call returns or raises.
  \<open>sessionID\<close> is the string computed once, on line 131, before the loop. A call of
  \<open>get()\<close> on an empty queue waits.
\<close>

definition worker_step ::
  "string \<Rightarrow> (bufref \<Rightarrow> string \<Rightarrow> exn option) \<Rightarrow> pipeline \<Rightarrow> pipeline" where
  "worker_step sessionID save s =
     (case pc s of
        Outer_to_do \<Rightarrow> if to_do s \<noteq> 0 then s\<lparr>pc := Inner_empty\<rparr> else s\<lparr>pc := Outer_empty\<rparr>
      | Outer_empty \<Rightarrow> if buffer_queue s \<noteq> [] then s\<lparr>pc := Inner_empty\<rparr> else s\<lparr>pc := Returned\<rparr>
      | Inner_empty \<Rightarrow> if buffer_queue s \<noteq> [] then s\<lparr>pc := Get\<rparr> else s\<lparr>pc := Sleep\<rparr>
      | Get \<Rightarrow>
          (case buffer_queue s of
             [] \<Rightarrow> s
           | task # rest \<Rightarrow> s\<lparr>buffer_queue := rest, pc := Save task\<rparr>)
      | Save (buffer, batch, serial) \<Rightarrow>
          (case save buffer (frame_path sessionID batch serial) of
             None \<Rightarrow> s\<lparr>saved := saved s @ [(buffer, frame_path sessionID batch serial)],
                       pc := Inner_empty\<rparr>
           | Some e \<Rightarrow> s\<lparr>pc := Raised e\<rparr>)
      | Sleep \<Rightarrow> s\<lparr>naps := Suc (naps s), pc := Outer_to_do\<rparr>
      | Returned \<Rightarrow> s
      | Raised e \<Rightarrow> s)"

text \<open>
  The steps of a run: the main thread puts a task (inside \<open>fire_cameras\<close>), the main
  thread clears the flag (\<open>to_do_signal.value = 0\<close>), or the worker takes a step.
\<close>

datatype action = Put frame_task | Signal | Worker

fun step :: "string \<Rightarrow> (bufref \<Rightarrow> string \<Rightarrow> exn option) \<Rightarrow> action \<Rightarrow> pipeline \<Rightarrow> pipeline" where
  "step sessionID save (Put task) s = s\<lparr>buffer_queue := buffer_queue s @ [task]\<rparr>"
| "step sessionID save Signal s = s\<lparr>to_do := 0\<rparr>"
| "step sessionID save Worker s = worker_step sessionID save s"

definition run ::
  "string \<Rightarrow> (bufref \<Rightarrow> string \<Rightarrow> exn option) \<Rightarrow> action list \<Rightarrow> pipeline \<Rightarrow> pipeline" where
  "run sessionID save schedule s = fold (step sessionID save) schedule s"

text \<open>
  The state in which the worker is started: an empty \<open>queue.Queue()\<close>,
  \<open>Value("i", 1)\<close>, the worker before its first test.
\<close>

definition started :: pipeline where
  "started = \<lparr>buffer_queue = [], to_do = 1, pc = Outer_to_do, saved = [], naps = 0\<rparr>"

subsection \<open>The interactive loop\<close>

text \<open>
  \<open>input(prompt)\<close> writes the prompt and reads a line of the console; at the end of the
  input it raises \<open>EOFError\<close>. \<open>envs batch\<close> is what the devices answer during the cycle
  that is fired with that batch number.
\<close>

definition prompt :: string where
  "prompt = ''Press enter to capture, or q then enter to exit''"

fun capture_loop :: "(int \<Rightarrow> env) \<Rightarrow> dev list \<Rightarrow> string list \<Rightarrow> int \<Rightarrow> int stmt" where
  "capture_loop envs devices [] batch w = (Inl EOFError, snd (print prompt w))"
| "capture_loop envs devices (line # lines) batch w =
     (if line \<noteq> ''q'' then
        (case fire_cameras (envs batch) devices batch (snd (print prompt w)) of
           (Inl e, w') \<Rightarrow> (Inl e, w')
         | (Inr _, w') \<Rightarrow> capture_loop envs devices lines (batch + 1) w')
      else (Inr batch, snd (print prompt w)))"

section \<open>Notions used in the statements\<close>

text \<open>What a device delivers in a cycle, read off its answers.\<close>

definition slot_of :: "env \<Rightarrow> dev \<Rightarrow> nat" where
  "slot_of en d = fst (projr (get_buffer (device en d)))"

definition image_of :: "env \<Rightarrow> dev \<Rightarrow> bytes" where
  "image_of en d = snd (projr (get_buffer (device en d)))"

definition serial_number :: "env \<Rightarrow> dev \<Rightarrow> string" where
  "serial_number en d = projr (DeviceSerialNumber (device en d))"

definition latched :: "env \<Rightarrow> dev \<Rightarrow> int" where
  "latched en d = projr (PtpDataSetLatchValue (device en d))"

text \<open>
  The block of a device reaches the put when every call before it returns: the start
  of the transfer, \<open>get_buffer\<close>, the stop of the transfer, the read of the serial
  number and the copy.
\<close>

definition retrieved :: "env \<Rightarrow> dev \<Rightarrow> bool" where
  "retrieved en d \<longleftrightarrow>
     TransferStart (device en d) = None \<and> \<not> isl (get_buffer (device en d)) \<and>
     TransferStop (device en d) = None \<and> \<not> isl (DeviceSerialNumber (device en d)) \<and>
     BufferFactory_copy en (DeviceBuf d (slot_of en d)) = None"

text \<open>
  The trigger phase (lines 96 to 104) completes when the list has a first device, its
  clock latches and reads, and the two writes to the transport layer return.
\<close>

definition triggered :: "env \<Rightarrow> dev list \<Rightarrow> bool" where
  "triggered en devices \<longleftrightarrow>
     (case devices of
        [] \<Rightarrow> False
      | d # _ \<Rightarrow>
          PtpDataSetLatch (device en d) = None \<and> \<not> isl (PtpDataSetLatchValue (device en d)) \<and>
          ActionCommandExecuteTime en = None \<and> ActionCommandFireCommand en = None)"

text \<open>The world after a completed trigger phase on reference device \<open>d\<close>.\<close>

definition trigger :: "env \<Rightarrow> dev \<Rightarrow> world \<Rightarrow> world" where
  "trigger en d w =
     w\<lparr>execute_time := Some (latched en d + PTP_DELTA),
       trace := trace w @ [EvLatch d, EvReadLatchValue d,
                 EvSetExecuteTime (latched en d + PTP_DELTA), EvFireCommand],
       stdout := stdout w @ [''Retrieving images...'']\<rparr>"

text \<open>What a call added to the queue, the trace and the console.\<close>

definition new_tasks :: "world \<Rightarrow> world \<Rightarrow> frame_task list" where
  "new_tasks w w' = drop (length (queue w)) (queue w')"

definition new_events :: "world \<Rightarrow> world \<Rightarrow> event list" where
  "new_events w w' = drop (length (trace w)) (trace w')"

definition new_output :: "world \<Rightarrow> world \<Rightarrow> string list" where
  "new_output w w' = drop (length (stdout w)) (stdout w')"

definition empty_world :: world where
  "empty_world =
     \<lparr>queue = [], store = (\<lambda>_. []), next_copy = 0, held = [], execute_time = None,
      trace = [], stdout = []\<rparr>"

text \<open>
  Three cameras for the examples: each answers every call, with serial number
  \<open>CAM0\<close>, \<open>CAM1\<close>, \<open>CAM2\<close>; in \<open>one_timeout\<close> the second camera's \<open>get_buffer\<close>
  times out.
\<close>

definition camera :: "dev \<Rightarrow> responses" where
  "camera d =
     \<lparr>PtpDataSetLatch = None, PtpDataSetLatchValue = Inr 5000,
      TransferStart = None, get_buffer = Inr (0, [d, d, d]),
      TransferStop = None, DeviceSerialNumber = Inr (''CAM'' @ [digit d]),
      requeue_buffer = None, refill = [9]\<rparr>"

definition all_well :: env where
  "all_well =
     \<lparr>device = camera, ActionCommandExecuteTime = None, ActionCommandFireCommand = None,
      BufferFactory_copy = (\<lambda>_. None)\<rparr>"

definition one_timeout :: env where
  "one_timeout =
     all_well\<lparr>device := (\<lambda>d. if d = 1
        then (camera d)\<lparr>get_buffer := Inl (TimeoutError ''timed out'')\<rparr> else camera d)\<rparr>"

text \<open>The devices on which a transfer was started, and those asked for a buffer, in order.\<close>

fun starts :: "event list \<Rightarrow> dev list" where
  "starts [] = []"
| "starts (EvTransferStart d # evs) = d # starts evs"
| "starts (_ # evs) = starts evs"

fun gets :: "event list \<Rightarrow> dev list" where
  "gets [] = []"
| "gets (EvGetBuffer d _ # evs) = d # gets evs"
| "gets (_ # evs) = gets evs"

text \<open>The commands that the block of one device issues, up to the first call that raises.\<close>

definition device_events :: "env \<Rightarrow> dev \<Rightarrow> event list" where
  "device_events en d =
     EvTransferStart d # (if TransferStart (device en d) \<noteq> None then [] else
     EvGetBuffer d 500 # (if isl (get_buffer (device en d)) then [] else
     EvTransferStop d # (if TransferStop (device en d) \<noteq> None then [] else
     EvReadSerial d # (if isl (DeviceSerialNumber (device en d)) then [] else
     EvCopy (DeviceBuf d (slot_of en d)) #
       (if BufferFactory_copy en (DeviceBuf d (slot_of en d)) \<noteq> None then [] else
     [EvRequeue d (DeviceBuf d (slot_of en d))])))))"

text \<open>
  A retrieval failure of a device: the exception of the first of the start of the
  transfer, \<open>get_buffer\<close> (a timeout) and the stop of the transfer that raises.
\<close>

definition retrieval_failure :: "env \<Rightarrow> dev \<Rightarrow> exn option" where
  "retrieval_failure en d =
     (case TransferStart (device en d) of
        Some e \<Rightarrow> Some e
      | None \<Rightarrow> (case get_buffer (device en d) of
           Inl e \<Rightarrow> Some e
         | Inr _ \<Rightarrow> TransferStop (device en d)))"

text \<open>Cameras that deliver a frame and then fail to stop the transfer.\<close>

definition stop_fails :: env where
  "stop_fails =
     all_well\<lparr>device := (\<lambda>d. (camera d)\<lparr>TransferStop := Some (DeviceError ''stop failed'')\<rparr>)\<rparr>"

text \<open>
  A device is handed a buffer when its transfer starts and \<open>get_buffer\<close> returns. After
  that, and before the put, the stop of the transfer, the read of the serial number and
  the copy can still raise.
\<close>

definition delivered :: "env \<Rightarrow> dev \<Rightarrow> bool" where
  "delivered en d \<longleftrightarrow>
     TransferStart (device en d) = None \<and> \<not> isl (get_buffer (device en d))"

definition fails_after_delivery :: "env \<Rightarrow> dev \<Rightarrow> bool" where
  "fails_after_delivery en d \<longleftrightarrow>
     TransferStop (device en d) \<noteq> None \<or> isl (DeviceSerialNumber (device en d)) \<or>
     BufferFactory_copy en (DeviceBuf d (slot_of en d)) \<noteq> None"

text \<open>
  More cameras for the examples: the copy of the second camera's frame fails; the
  second camera refuses to take its buffer back; the second camera times out and the
  copy of the third camera's frame fails.
\<close>

definition copy_fails :: env where
  "copy_fails =
     all_well\<lparr>BufferFactory_copy :=
       (\<lambda>buffer. if buffer = DeviceBuf 1 0 then Some (DeviceError ''copy failed'') else None)\<rparr>"

definition requeue_fails :: env where
  "requeue_fails =
     all_well\<lparr>device := (\<lambda>d. if d = 1
        then (camera d)\<lparr>requeue_buffer := Some (DeviceError ''requeue failed'')\<rparr>
        else camera d)\<rparr>"

definition timeout_and_copy_failure :: env where
  "timeout_and_copy_failure =
     one_timeout\<lparr>BufferFactory_copy :=
       (\<lambda>buffer. if buffer = DeviceBuf 2 0 then Some (DeviceError ''copy failed'') else None)\<rparr>"

text \<open>
  The interactive loop in closed form: the world after \<open>n\<close> turns of the loop, the
  \<open>k\<close>-th turn (counted from 0) writing the prompt and calling \<open>fire_cameras\<close> with
  batch \<open>k\<close>; the tasks that the \<open>k\<close>-th turn adds; and the number of lines entered
  before the first \<open>q\<close>.
\<close>

fun after_cycles :: "(int \<Rightarrow> env) \<Rightarrow> dev list \<Rightarrow> nat \<Rightarrow> world \<Rightarrow> world" where
  "after_cycles envs devices 0 w = w"
| "after_cycles envs devices (Suc n) w =
     snd (fire_cameras (envs (int n)) devices (int n)
       (snd (print prompt (after_cycles envs devices n w))))"

definition cycle_tasks :: "(int \<Rightarrow> env) \<Rightarrow> dev list \<Rightarrow> world \<Rightarrow> nat \<Rightarrow> frame_task list" where
  "cycle_tasks envs devices w k =
     new_tasks (after_cycles envs devices k w) (after_cycles envs devices (Suc k) w)"

definition presses :: "string list \<Rightarrow> nat" where
  "presses lines = length (takeWhile (\<lambda>line. line \<noteq> ''q'') lines)"

text \<open>A console session: enter, enter, \<open>q\<close>.\<close>

definition session :: "string list" where
  "session = ['''', '''', ''q'', '''']"

text \<open>
  Polling: whether every device answers the \<open>k\<close>-th poll, and how many of the answers
  are \<open>Master\<close>; the state in which \<open>wait_for_sync\<close> enters its loop.
\<close>

definition polled :: "(nat \<Rightarrow> dev \<Rightarrow> exn + string) \<Rightarrow> dev list \<Rightarrow> nat \<Rightarrow> bool" where
  "polled PtpStatus devices k = list_all (\<lambda>d. \<not> isl (PtpStatus k d)) devices"

definition masters_at :: "(nat \<Rightarrow> dev \<Rightarrow> exn + string) \<Rightarrow> dev list \<Rightarrow> nat \<Rightarrow> nat" where
  "masters_at PtpStatus devices k =
     count_list (map (\<lambda>d. projr (PtpStatus k d)) devices) ''Master''"

definition sync_start :: sync where
  "sync_start =
     \<lparr>masters = 0, polls = 0, slept = 0, printed = [''Waiting for PTP Sync...'']\<rparr>"

text \<open>
  Three devices; a clock topology in which device 0 becomes the master at the third
  poll, and one in which devices 0 and 1 both claim to be the master for ever.
\<close>

definition fleet :: "dev list" where
  "fleet = [0, 1, 2]"

definition settles_at_third :: "nat \<Rightarrow> dev \<Rightarrow> exn + string" where
  "settles_at_third k d = Inr (if 2 \<le> k \<and> d = 0 then ''Master'' else ''Slave'')"

definition two_masters :: "nat \<Rightarrow> dev \<Rightarrow> exn + string" where
  "two_masters k d = Inr (if d \<le> 1 then ''Master'' else ''Slave'')"

text \<open>
  Runs of the pipeline: the tasks that a schedule puts, in order; the file that the
  worker writes for a task (the buffer and the path handed to \<open>writer.save\<close>); and
  the schedules in which the main thread puts nothing once it has cleared the flag.
\<close>

fun puts :: "action list \<Rightarrow> frame_task list" where
  "puts [] = []"
| "puts (Put task # as) = task # puts as"
| "puts (_ # as) = puts as"

definition file_of :: "string \<Rightarrow> frame_task \<Rightarrow> bufref \<times> string" where
  "file_of sessionID task =
     (buffer_of task, frame_path sessionID (batch_of task) (serial_of task))"

fun stops_before_signal :: "action list \<Rightarrow> bool" where
  "stops_before_signal [] = True"
| "stops_before_signal (Signal # as) = (puts as = [])"
| "stops_before_signal (_ # as) = stops_before_signal as"

text \<open>
  Invariants of a run. Every task put so far is saved, in the worker's hand (taken from
  the queue and not saved: the task it is about to save, or the one task lost when the
  writer raised) or still in the queue, in this order.
\<close>

definition in_hand :: "place \<Rightarrow> frame_task list \<Rightarrow> bool" where
  "in_hand p ts =
     (case p of Save task \<Rightarrow> ts = [task] | Raised e \<Rightarrow> length ts = 1 | _ \<Rightarrow> ts = [])"

definition accounted :: "string \<Rightarrow> pipeline \<Rightarrow> frame_task list \<Rightarrow> bool" where
  "accounted sessionID s h \<longleftrightarrow>
     (\<exists>done lost. saved s = map (file_of sessionID) done \<and> in_hand (pc s) lost \<and>
        h = done @ lost @ buffer_queue s)"

text \<open>
  The worker is past its test of the flag only if the flag is 0, and has left the loop
  only if moreover the queue is empty; this holds along a schedule that is \<open>quiet\<close>:
  no put once the flag is 0.
\<close>

definition drained :: "pipeline \<Rightarrow> bool" where
  "drained s \<longleftrightarrow>
     (pc s = Outer_empty \<longrightarrow> to_do s = 0) \<and>
     (pc s = Returned \<longrightarrow> to_do s = 0 \<and> buffer_queue s = [])"

definition quiet :: "pipeline \<Rightarrow> action list \<Rightarrow> bool" where
  "quiet s schedule \<longleftrightarrow>
     (if to_do s = 0 then puts schedule = [] else stops_before_signal schedule)"

text \<open>How many steps the worker still takes, once the flag is 0 and nothing is put.\<close>

definition steps_left :: "pipeline \<Rightarrow> nat" where
  "steps_left s =
     (let q = length (buffer_queue s) in
      case pc s of
        Outer_to_do \<Rightarrow> if q = 0 then 2 else 3 * q + 6
      | Outer_empty \<Rightarrow> if q = 0 then 1 else 3 * q + 5
      | Inner_empty \<Rightarrow> 3 * q + 4
      | Get \<Rightarrow> 3 * q + 3
      | Save task \<Rightarrow> 3 * q + 5
      | Sleep \<Rightarrow> if q = 0 then 3 else 3 * q + 7
      | Returned \<Rightarrow> 0
      | Raised e \<Rightarrow> 0)"

text \<open>
  The worker has not raised and calls \<open>get()\<close> only on a queue that is not empty
  (\<open>sound\<close>); \<open>winding_down\<close> adds that the flag is 0.
\<close>

definition winding_down :: "pipeline \<Rightarrow> bool" where
  "winding_down s \<longleftrightarrow>
     to_do s = 0 \<and> (\<forall>e. pc s \<noteq> Raised e) \<and> (pc s = Get \<longrightarrow> buffer_queue s \<noteq> [])"

definition sound :: "pipeline \<Rightarrow> bool" where
  "sound s \<longleftrightarrow> (\<forall>e. pc s \<noteq> Raised e) \<and> (pc s = Get \<longrightarrow> buffer_queue s \<noteq> [])"

text \<open>
  Examples: a shutdown in which the second task is put while the worker is busy and the
  flag is cleared while the first task is in the worker's hand; a writer that always
  returns, and one that always raises.
\<close>

definition shutdown :: "action list" where
  "shutdown =
     [Put (CopyBuf 0, 0, ''CAM0''), Worker, Worker, Put (CopyBuf 1, 0, ''CAM2''), Worker, Signal]"

definition never_fails :: "bufref \<Rightarrow> string \<Rightarrow> exn option" where
  "never_fails buffer path = None"

definition disk_full :: "bufref \<Rightarrow> string \<Rightarrow> exn option" where
  "disk_full buffer path = Some (DeviceError ''disk full'')"

text \<open>The worker holds a task that the writer will refuse, or has already raised.\<close>

definition doomed ::
  "string \<Rightarrow> (bufref \<Rightarrow> string \<Rightarrow> exn option) \<Rightarrow> exn \<Rightarrow> pipeline \<Rightarrow> bool" where
  "doomed sid save e s \<longleftrightarrow>
     pc s = Raised e \<or>
     (\<exists>buffer batch serial. pc s = Save (buffer, batch, serial) \<and>
        save buffer (frame_path sid batch serial) = Some e)"

text \<open>
  A run in which the writer raises on the first task: the steps up to the call of
  \<open>writer.save\<close>, and the steps after it.
\<close>

definition crash_before :: "action list" where
  "crash_before =
     [Put (CopyBuf 0, 0, ''CAM0''), Put (CopyBuf 1, 0, ''CAM2''), Worker, Worker, Worker]"

definition crash_after :: "action list" where
  "crash_after = [Worker, Put (CopyBuf 2, 1, ''CAM0''), Signal, Worker, Worker]"

text \<open>A number padded with zeros on the left to three digits.\<close>

definition pad3 :: "nat \<Rightarrow> string" where
  "pad3 n =
     (if n < 10 then ''00'' @ decimal n else if n < 100 then ''0'' @ decimal n else decimal n)"

text \<open>A run that saves a frame of batch 7 and a frame of batch 123.\<close>

definition two_batches :: "action list" where
  "two_batches =
     [Put (CopyBuf 0, 7, ''ABC123''), Worker, Worker, Worker, Worker,
      Put (CopyBuf 1, 123, ''ABC123''), Worker, Worker, Worker]"

section \<open>Properties of \<open>fire_cameras\<close>\<close>

lemmas call_defs = returns_def raises_def andthen_def emit_def print_def outcome_def answer_def
  execute_PtpDataSetLatch_def read_PtpDataSetLatchValue_def set_ActionCommandExecuteTime_def
  execute_ActionCommandFireCommand_def execute_TransferStart_def device_get_buffer_def
  execute_TransferStop_def read_DeviceSerialNumber_def copy_def put_def device_requeue_buffer_def
  first_device_def

lemma try_retrieve_queue:
  "queue (try_retrieve en b d w) =
     (if retrieved en d
      then queue w @ [(CopyBuf (next_copy w), b, serial_number en d)]
      else queue w)"
  unfolding try_retrieve_def retrieve_def call_defs retrieved_def slot_of_def serial_number_def
  by (auto split: option.splits sum.splits prod.splits)

lemma try_retrieve_next_copy:
  "next_copy (try_retrieve en b d w) =
     (if retrieved en d then Suc (next_copy w) else next_copy w)"
  unfolding try_retrieve_def retrieve_def call_defs retrieved_def slot_of_def
  by (auto split: option.splits sum.splits prod.splits)

lemma fold_try_retrieve_queue:
  "\<exists>ts. queue (fold (try_retrieve en b) ds w) = queue w @ ts \<and>
        map (\<lambda>t. (batch_of t, serial_of t)) ts =
          map (\<lambda>d. (b, serial_number en d)) (filter (retrieved en) ds)"
proof (induction ds arbitrary: w)
  case Nil
  show ?case by simp
next
  case (Cons d ds)
  obtain ts where ts: "queue (fold (try_retrieve en b) ds (try_retrieve en b d w)) =
      queue (try_retrieve en b d w) @ ts"
    "map (\<lambda>t. (batch_of t, serial_of t)) ts =
          map (\<lambda>d. (b, serial_number en d)) (filter (retrieved en) ds)"
    using Cons.IH by blast
  show ?case
  proof (cases "retrieved en d")
    case True
    then show ?thesis using ts
      by (simp add: try_retrieve_queue batch_of_def serial_of_def)
  next
    case False
    then show ?thesis using ts
      by (simp add: try_retrieve_queue)
  qed
qed

lemma fire_cameras_raises:
  "\<not> triggered en ds \<Longrightarrow>
     isl (fst (fire_cameras en ds b w)) \<and> queue (snd (fire_cameras en ds b w)) = queue w"
  unfolding fire_cameras_def triggered_def call_defs
  by (auto split: option.splits sum.splits prod.splits list.splits)

lemma fire_cameras_returns:
  "triggered en (d # ds) \<Longrightarrow>
     fire_cameras en (d # ds) b w =
       (Inr (), snd (print '' | OK'' (fold (try_retrieve en b) (d # ds) (trigger en d w))))"
  unfolding fire_cameras_def triggered_def call_defs trigger_def latched_def
  by (auto split: option.splits sum.splits prod.splits list.splits)

lemma triggered_Cons: "triggered en ds \<Longrightarrow> \<exists>d ds'. ds = d # ds'"
  by (cases ds) (simp_all add: triggered_def)

lemma fire_cameras_queue:
  "queue (snd (fire_cameras en ds b w)) =
     (if triggered en ds then queue (fold (try_retrieve en b) ds (trigger en (hd ds) w))
      else queue w)"
proof (cases "triggered en ds")
  case True
  then obtain d ds' where "ds = d # ds'" using triggered_Cons by blast
  with True show ?thesis
    by (simp add: fire_cameras_returns print_def)
next
  case False
  then show ?thesis by (simp add: fire_cameras_raises)
qed

lemma fire_cameras_appends:
  "\<exists>ts. queue (snd (fire_cameras en ds b w)) = queue w @ ts \<and>
        (\<forall>t \<in> set ts. batch_of t = b) \<and>
        (triggered en ds \<longrightarrow>
           map (\<lambda>t. (batch_of t, serial_of t)) ts =
             map (\<lambda>d. (b, serial_number en d)) (filter (retrieved en) ds)) \<and>
        (\<not> triggered en ds \<longrightarrow> ts = [])"
proof (cases "triggered en ds")
  case True
  obtain ts where ts: "queue (fold (try_retrieve en b) ds (trigger en (hd ds) w)) =
      queue (trigger en (hd ds) w) @ ts"
    "map (\<lambda>t. (batch_of t, serial_of t)) ts =
       map (\<lambda>d. (b, serial_number en d)) (filter (retrieved en) ds)"
    using fold_try_retrieve_queue [of en b ds "trigger en (hd ds) w"] by auto
  have "\<forall>p \<in> set (map (\<lambda>t. (batch_of t, serial_of t)) ts). fst p = b"
    unfolding ts(2) by auto
  then have "\<forall>t \<in> set ts. batch_of t = b" by auto
  with ts True show ?thesis
    by (simp add: fire_cameras_queue trigger_def)
next
  case False
  then show ?thesis by (simp add: fire_cameras_queue)
qed

lemma retrieved_iff: "retrieved en d \<longleftrightarrow> delivered en d \<and> \<not> fails_after_delivery en d"
  by (auto simp: retrieved_def delivered_def fails_after_delivery_def)

lemma length_filter_split:
  "length (filter (\<lambda>x. P x \<and> \<not> Q x) xs) + length (filter (\<lambda>x. P x \<and> Q x) xs) =
     length (filter P xs)"
  by (induction xs) auto

lemma filter_retrieved:
  "filter (retrieved en) ds = filter (\<lambda>d. delivered en d \<and> \<not> fails_after_delivery en d) ds"
  by (rule filter_cong) (simp_all add: retrieved_iff)

text \<open>
  C1. In a trigger cycle whose trigger phase completes, let \<open>K\<close> devices of the list be
  handed a buffer by \<open>get_buffer\<close>, and let \<open>F\<close> of these then fail in the stop of the
  transfer, the read of the serial number or the copy. The cycle adds exactly \<open>K - F\<close>
  tasks to the queue (\<open>K\<close> when no such call fails), behind what was there and in the
  order of their devices, each with the batch number given to \<open>fire_cameras\<close> and the
  serial number read from its own device. A requeue that raises comes after the put and
  leaves the task in the queue. When the trigger phase raises, the call raises before
  any retrieval is tried and the queue is as it was.
\<close>

theorem fire_cameras_enqueues:
  assumes "fire_cameras en devices batch w = (r, w')"
    and "length (filter (delivered en) devices) = K"
    and "length (filter (\<lambda>d. delivered en d \<and> fails_after_delivery en d) devices) = F"
  shows "(triggered en devices \<longrightarrow>
            r = Inr () \<and>
            queue w' = queue w @ new_tasks w w' \<and>
            length (new_tasks w w') + F = K \<and>
            map (\<lambda>t. (batch_of t, serial_of t)) (new_tasks w w') =
              map (\<lambda>d. (batch, serial_number en d))
                (filter (\<lambda>d. delivered en d \<and> \<not> fails_after_delivery en d) devices)) \<and>
         (\<not> triggered en devices \<longrightarrow> isl r \<and> queue w' = queue w)"
proof (cases "triggered en devices")
  case True
  then obtain d ds where ds: "devices = d # ds" using triggered_Cons by blast
  have r: "r = Inr ()" using assms(1) True by (simp add: ds fire_cameras_returns)
  obtain ts where ts: "queue (snd (fire_cameras en devices batch w)) = queue w @ ts"
      "map (\<lambda>t. (batch_of t, serial_of t)) ts =
         map (\<lambda>d. (batch, serial_number en d)) (filter (retrieved en) devices)"
    using fire_cameras_appends [of en devices batch w] True by auto
  have q: "queue w' = queue w @ ts" using ts(1) assms(1) by simp
  have n: "new_tasks w w' = ts" by (simp add: new_tasks_def q)
  have "length ts = length (filter (retrieved en) devices)"
    using ts(2) by (metis length_map)
  then have l: "length ts =
      length (filter (\<lambda>d. delivered en d \<and> \<not> fails_after_delivery en d) devices)"
    by (simp only: filter_retrieved)
  have c: "length ts + F = K"
    unfolding l assms(2) [symmetric] assms(3) [symmetric] by (rule length_filter_split)
  have m: "map (\<lambda>t. (batch_of t, serial_of t)) ts =
      map (\<lambda>d. (batch, serial_number en d))
        (filter (\<lambda>d. delivered en d \<and> \<not> fails_after_delivery en d) devices)"
    using ts(2) by (simp only: filter_retrieved)
  show ?thesis using True r q n c m by simp
next
  case False
  with assms(1) fire_cameras_raises [of en devices batch w] show ?thesis by simp
qed

lemma triggered_one_timeout: "triggered one_timeout [0, 1, 2]"
  by (simp add: triggered_def one_timeout_def all_well_def camera_def)

lemma triggered_timeout_and_copy_failure: "triggered timeout_and_copy_failure [0, 1, 2]"
  by (simp add: triggered_def timeout_and_copy_failure_def one_timeout_def all_well_def
      camera_def)

lemma delivered_timeout_and_copy_failure:
  "filter (delivered timeout_and_copy_failure) [0, 1, 2] = [0, 2]"
  by (simp add: delivered_def timeout_and_copy_failure_def one_timeout_def all_well_def
      camera_def)

lemma failed_timeout_and_copy_failure:
  "filter (\<lambda>d. delivered timeout_and_copy_failure d \<and>
      fails_after_delivery timeout_and_copy_failure d) [0, 1, 2] = [2]"
  by (simp add: delivered_def fails_after_delivery_def timeout_and_copy_failure_def
      one_timeout_def all_well_def camera_def slot_of_def)

lemma kept_timeout_and_copy_failure:
  "filter (\<lambda>d. delivered timeout_and_copy_failure d \<and>
      \<not> fails_after_delivery timeout_and_copy_failure d) [0, 1, 2] = [0]"
  by (simp add: delivered_def fails_after_delivery_def timeout_and_copy_failure_def
      one_timeout_def all_well_def camera_def slot_of_def)

theorem fire_cameras_enqueues_witness:
  "triggered timeout_and_copy_failure [0, 1, 2] \<and>
   length (filter (delivered timeout_and_copy_failure) [0, 1, 2]) = 2 \<and>
   length (filter (\<lambda>d. delivered timeout_and_copy_failure d \<and>
      fails_after_delivery timeout_and_copy_failure d) [0, 1, 2]) = 1 \<and>
   fst (fire_cameras timeout_and_copy_failure [0, 1, 2] 7 empty_world) = Inr () \<and>
   length (new_tasks empty_world
     (snd (fire_cameras timeout_and_copy_failure [0, 1, 2] 7 empty_world))) + 1 = 2 \<and>
   map (\<lambda>t. (batch_of t, serial_of t))
     (new_tasks empty_world
       (snd (fire_cameras timeout_and_copy_failure [0, 1, 2] 7 empty_world))) =
     [(7, ''CAM0'')] \<and>
   \<not> triggered timeout_and_copy_failure [] \<and>
   isl (fst (fire_cameras timeout_and_copy_failure [] 7 empty_world)) \<and>
   queue (snd (fire_cameras timeout_and_copy_failure [] 7 empty_world)) = queue empty_world"
proof -
  have s: "map (\<lambda>d. (7::int, serial_number timeout_and_copy_failure d)) [0] = [(7, ''CAM0'')]"
    by (simp add: serial_number_def timeout_and_copy_failure_def one_timeout_def all_well_def
        camera_def digit_def)
  have k: "length (filter (delivered timeout_and_copy_failure) [0, 1, 2]) = 2"
    by (simp only: delivered_timeout_and_copy_failure) simp
  have f: "length (filter (\<lambda>d. delivered timeout_and_copy_failure d \<and>
      fails_after_delivery timeout_and_copy_failure d) [0, 1, 2]) = 1"
    by (simp only: failed_timeout_and_copy_failure) simp
  have n: "\<not> triggered timeout_and_copy_failure []" by (simp add: triggered_def)
  have e: "length (filter (delivered timeout_and_copy_failure) []) = 0"
    "length (filter (\<lambda>d. delivered timeout_and_copy_failure d \<and>
      fails_after_delivery timeout_and_copy_failure d) []) = 0" by simp_all
  note a = fire_cameras_enqueues [where en = timeout_and_copy_failure
      and devices = "[0, 1, 2]" and batch = 7 and w = empty_world,
      OF surjective_pairing k f, THEN conjunct1, THEN mp,
      OF triggered_timeout_and_copy_failure,
      unfolded kept_timeout_and_copy_failure s]
  note b = fire_cameras_enqueues [where en = timeout_and_copy_failure
      and devices = "[]" and batch = 7 and w = empty_world,
      OF surjective_pairing e, THEN conjunct2, THEN mp, OF n]
  from a b triggered_timeout_and_copy_failure k f n show ?thesis by (intro conjI) simp_all
qed

lemmas eval_defs = fire_cameras_def try_retrieve_def retrieve_def call_defs
  all_well_def camera_def empty_world_def PTP_DELTA_def new_tasks_def

text \<open>
  The number of tasks is not the number of devices that were handed a buffer, nor the
  number of devices without a timeout or transfer error, nor the number of blocks that
  end without an exception. With \<open>copy_fails\<close> all three cameras are handed a buffer and
  none has a retrieval failure, and two tasks are enqueued; with \<open>requeue_fails\<close> the
  block of the second camera raises, and three tasks are enqueued.
\<close>

theorem fire_cameras_enqueues_counterexample:
  "triggered copy_fails [0, 1, 2] \<and>
   length (filter (delivered copy_fails) [0, 1, 2]) = 3 \<and>
   map (retrieval_failure copy_fails) [0, 1, 2] = [None, None, None] \<and>
   length (new_tasks empty_world (snd (fire_cameras copy_fails [0, 1, 2] 7 empty_world))) = 2 \<and>
   triggered requeue_fails [0, 1, 2] \<and>
   fst (retrieve requeue_fails 7 1 empty_world) = Inl (DeviceError ''requeue failed'') \<and>
   length (new_tasks empty_world (snd (fire_cameras requeue_fails [0, 1, 2] 7 empty_world))) = 3"
proof (intro conjI)
  show "triggered copy_fails [0, 1, 2]"
    by (simp add: triggered_def copy_fails_def all_well_def camera_def)
  show "length (filter (delivered copy_fails) [0, 1, 2]) = 3"
    by (simp add: delivered_def copy_fails_def all_well_def camera_def)
  show "map (retrieval_failure copy_fails) [0, 1, 2] = [None, None, None]"
    by (simp add: retrieval_failure_def copy_fails_def all_well_def camera_def)
  show "length (new_tasks empty_world
      (snd (fire_cameras copy_fails [0, 1, 2] 7 empty_world))) = 2"
    by (simp add: eval_defs copy_fails_def)
  show "triggered requeue_fails [0, 1, 2]"
    by (simp add: triggered_def requeue_fails_def all_well_def camera_def)
  show "fst (retrieve requeue_fails 7 1 empty_world) = Inl (DeviceError ''requeue failed'')"
    by (simp add: eval_defs requeue_fails_def)
  show "length (new_tasks empty_world
      (snd (fire_cameras requeue_fails [0, 1, 2] 7 empty_world))) = 3"
    by (simp add: eval_defs requeue_fails_def)
qed

lemma try_retrieve_trace:
  "trace (try_retrieve en b d w) = trace w @ device_events en d"
  unfolding try_retrieve_def retrieve_def call_defs device_events_def slot_of_def
  by (auto split: option.splits sum.splits prod.splits)

lemma try_retrieve_execute_time:
  "execute_time (try_retrieve en b d w) = execute_time w"
  unfolding try_retrieve_def retrieve_def call_defs
  by (auto split: option.splits sum.splits prod.splits)

lemma try_retrieve_stdout_failure:
  "retrieval_failure en d = Some e \<Longrightarrow> stdout (try_retrieve en b d w) = stdout w @ [str e]"
  unfolding try_retrieve_def retrieve_def call_defs retrieval_failure_def
  by (auto split: option.splits sum.splits prod.splits)

lemma try_retrieve_stdout:
  "\<exists>out. stdout (try_retrieve en b d w) = stdout w @ out"
  unfolding try_retrieve_def retrieve_def call_defs
  by (auto split: option.splits sum.splits prod.splits)

lemma fold_try_retrieve_trace:
  "trace (fold (try_retrieve en b) ds w) = trace w @ concat (map (device_events en) ds)"
  by (induction ds arbitrary: w) (simp_all add: try_retrieve_trace)

lemma fold_try_retrieve_execute_time:
  "execute_time (fold (try_retrieve en b) ds w) = execute_time w"
  by (induction ds arbitrary: w) (simp_all add: try_retrieve_execute_time)

lemma fold_try_retrieve_stdout:
  "\<exists>out. stdout (fold (try_retrieve en b) ds w) = stdout w @ out \<and>
     (\<forall>d \<in> set ds. \<forall>e. retrieval_failure en d = Some e \<longrightarrow> str e \<in> set out)"
proof (induction ds arbitrary: w)
  case Nil
  show ?case by simp
next
  case (Cons d ds)
  obtain out1 where o1: "stdout (try_retrieve en b d w) = stdout w @ out1"
    using try_retrieve_stdout by blast
  obtain out2 where o2:
    "stdout (fold (try_retrieve en b) ds (try_retrieve en b d w)) =
       stdout (try_retrieve en b d w) @ out2"
    "\<forall>d \<in> set ds. \<forall>e. retrieval_failure en d = Some e \<longrightarrow> str e \<in> set out2"
    using Cons.IH by blast
  have "\<forall>e. retrieval_failure en d = Some e \<longrightarrow> str e \<in> set out1"
    using try_retrieve_stdout_failure [of en d _ b w] o1 by auto
  with o1 o2 show ?case by auto
qed

lemma starts_append: "starts (xs @ ys) = starts xs @ starts ys"
  by (induction xs rule: starts.induct) simp_all

lemma starts_device_events: "starts (device_events en d) = [d]"
  by (simp add: device_events_def)

lemma starts_concat: "starts (concat (map (device_events en) ds)) = ds"
  by (induction ds) (simp_all add: starts_append starts_device_events)

lemma fire_not_in_device_events: "EvFireCommand \<notin> set (device_events en d)"
  by (simp add: device_events_def)

lemma count_fire_concat: "count_list (concat (map (device_events en) ds)) EvFireCommand = 0"
  by (induction ds) (simp_all add: fire_not_in_device_events)


lemma fire_cameras_fire_raises:
  assumes "PtpDataSetLatch (device en d) = None"
    and "PtpDataSetLatchValue (device en d) = Inr t0"
    and "ActionCommandExecuteTime en = None"
    and "ActionCommandFireCommand en = Some e"
  shows "fire_cameras en (d # ds) b w =
     (Inl e, w\<lparr>execute_time := Some (t0 + PTP_DELTA),
        trace := trace w @ [EvLatch d, EvReadLatchValue d, EvSetExecuteTime (t0 + PTP_DELTA),
          EvFireCommand]\<rparr>)"
  using assms unfolding fire_cameras_def call_defs by simp

lemma trigger_simps:
  "queue (trigger en d w) = queue w"
  "next_copy (trigger en d w) = next_copy w"
  "store (trigger en d w) = store w"
  "held (trigger en d w) = held w"
  "execute_time (trigger en d w) = Some (latched en d + PTP_DELTA)"
  "trace (trigger en d w) = trace w @ [EvLatch d, EvReadLatchValue d,
     EvSetExecuteTime (latched en d + PTP_DELTA), EvFireCommand]"
  "stdout (trigger en d w) = stdout w @ [''Retrieving images...'']"
  by (simp_all add: trigger_def)

lemma fire_cameras_returns_world:
  assumes "triggered en devices"
  shows "fst (fire_cameras en devices b w) = Inr ()"
    and "queue (snd (fire_cameras en devices b w)) =
           queue (fold (try_retrieve en b) devices (trigger en (hd devices) w))"
    and "trace (snd (fire_cameras en devices b w)) =
           trace (fold (try_retrieve en b) devices (trigger en (hd devices) w))"
    and "store (snd (fire_cameras en devices b w)) =
           store (fold (try_retrieve en b) devices (trigger en (hd devices) w))"
    and "held (snd (fire_cameras en devices b w)) =
           held (fold (try_retrieve en b) devices (trigger en (hd devices) w))"
    and "next_copy (snd (fire_cameras en devices b w)) =
           next_copy (fold (try_retrieve en b) devices (trigger en (hd devices) w))"
    and "execute_time (snd (fire_cameras en devices b w)) =
           execute_time (fold (try_retrieve en b) devices (trigger en (hd devices) w))"
    and "stdout (snd (fire_cameras en devices b w)) =
           stdout (fold (try_retrieve en b) devices (trigger en (hd devices) w)) @ ['' | OK'']"
proof -
  obtain d ds where ds: "devices = d # ds" using assms triggered_Cons by blast
  have eq: "fire_cameras en devices b w =
      (Inr (), snd (print '' | OK'' (fold (try_retrieve en b) devices (trigger en (hd devices) w))))"
    using fire_cameras_returns [of en d ds b w] assms by (simp add: ds)
  show "fst (fire_cameras en devices b w) = Inr ()"
    and "queue (snd (fire_cameras en devices b w)) =
           queue (fold (try_retrieve en b) devices (trigger en (hd devices) w))"
    and "trace (snd (fire_cameras en devices b w)) =
           trace (fold (try_retrieve en b) devices (trigger en (hd devices) w))"
    and "store (snd (fire_cameras en devices b w)) =
           store (fold (try_retrieve en b) devices (trigger en (hd devices) w))"
    and "held (snd (fire_cameras en devices b w)) =
           held (fold (try_retrieve en b) devices (trigger en (hd devices) w))"
    and "next_copy (snd (fire_cameras en devices b w)) =
           next_copy (fold (try_retrieve en b) devices (trigger en (hd devices) w))"
    and "execute_time (snd (fire_cameras en devices b w)) =
           execute_time (fold (try_retrieve en b) devices (trigger en (hd devices) w))"
    and "stdout (snd (fire_cameras en devices b w)) =
           stdout (fold (try_retrieve en b) devices (trigger en (hd devices) w)) @ ['' | OK'']"
    unfolding eq by (simp_all add: print_def)
qed


lemma try_retrieve_store_copy:
  "n < next_copy w \<Longrightarrow> store (try_retrieve en b d w) (CopyBuf n) = store w (CopyBuf n)"
  unfolding try_retrieve_def retrieve_def call_defs
  by (auto split: option.splits sum.splits prod.splits)

lemma try_retrieve_store_new:
  "retrieved en d \<Longrightarrow> store (try_retrieve en b d w) (CopyBuf (next_copy w)) = image_of en d"
  unfolding try_retrieve_def retrieve_def call_defs retrieved_def slot_of_def image_of_def
  by (auto split: option.splits sum.splits prod.splits)

lemma try_retrieve_next_copy_mono: "next_copy w \<le> next_copy (try_retrieve en b d w)"
  by (simp add: try_retrieve_next_copy)

lemma fold_try_retrieve_next_copy_mono:
  "next_copy w \<le> next_copy (fold (try_retrieve en b) ds w)"
proof (induction ds arbitrary: w)
  case Nil
  show ?case by simp
next
  case (Cons d ds)
  have "next_copy w \<le> next_copy (try_retrieve en b d w)"
    by (rule try_retrieve_next_copy_mono)
  also have "\<dots> \<le> next_copy (fold (try_retrieve en b) ds (try_retrieve en b d w))"
    by (rule Cons.IH)
  finally show ?case by simp
qed

lemma fold_try_retrieve_store_copy:
  "n < next_copy w \<Longrightarrow> store (fold (try_retrieve en b) ds w) (CopyBuf n) = store w (CopyBuf n)"
proof (induction ds arbitrary: w)
  case Nil
  show ?case by simp
next
  case (Cons d ds)
  have "n < next_copy (try_retrieve en b d w)"
    using Cons.prems try_retrieve_next_copy_mono [of w en b d] by simp
  then show ?case
    using Cons.IH [of "try_retrieve en b d w"] Cons.prems
    by (simp add: try_retrieve_store_copy)
qed

lemma fold_try_retrieve_copies:
  "\<exists>ts. queue (fold (try_retrieve en b) ds w) = queue w @ ts \<and>
        map (\<lambda>t. store (fold (try_retrieve en b) ds w) (buffer_of t)) ts =
          map (image_of en) (filter (retrieved en) ds) \<and>
        (\<forall>t \<in> set ts. \<exists>n. buffer_of t = CopyBuf n \<and> next_copy w \<le> n \<and>
           n < next_copy (fold (try_retrieve en b) ds w))"
proof (induction ds arbitrary: w)
  case Nil
  show ?case by simp
next
  case (Cons d ds)
  define w1 where "w1 = try_retrieve en b d w"
  define w2 where "w2 = fold (try_retrieve en b) ds w1"
  obtain ts where ts: "queue w2 = queue w1 @ ts"
    "map (\<lambda>t. store w2 (buffer_of t)) ts = map (image_of en) (filter (retrieved en) ds)"
    "\<forall>t \<in> set ts. \<exists>n. buffer_of t = CopyBuf n \<and> next_copy w1 \<le> n \<and> n < next_copy w2"
    using Cons.IH [of w1] unfolding w2_def by blast
  have f: "fold (try_retrieve en b) (d # ds) w = w2" by (simp add: w2_def w1_def)
  have m: "next_copy w1 \<le> next_copy w2"
    unfolding w2_def by (rule fold_try_retrieve_next_copy_mono)
  show ?case
  proof (cases "retrieved en d")
    case False
    then have "queue w1 = queue w" "next_copy w1 = next_copy w"
      by (simp_all add: w1_def try_retrieve_queue try_retrieve_next_copy)
    with ts False show ?thesis unfolding f by auto
  next
    case True
    then have q: "queue w1 = queue w @ [(CopyBuf (next_copy w), b, serial_number en d)]"
      and n: "next_copy w1 = Suc (next_copy w)"
      by (simp_all add: w1_def try_retrieve_queue try_retrieve_next_copy)
    have "store w2 (CopyBuf (next_copy w)) = store w1 (CopyBuf (next_copy w))"
      unfolding w2_def using n by (simp add: fold_try_retrieve_store_copy)
    then have c: "store w2 (CopyBuf (next_copy w)) = image_of en d"
      using True by (simp add: w1_def try_retrieve_store_new)
    let ?ts = "(CopyBuf (next_copy w), b, serial_number en d) # ts"
    have 1: "queue w2 = queue w @ ?ts" using ts(1) q by simp
    have 2: "map (\<lambda>t. store w2 (buffer_of t)) ?ts =
        map (image_of en) (filter (retrieved en) (d # ds))"
      using ts(2) c True by (simp add: buffer_of_def)
    have 3: "\<forall>t \<in> set ?ts. \<exists>n. buffer_of t = CopyBuf n \<and> next_copy w \<le> n \<and> n < next_copy w2"
      using ts(3) n m by (auto simp: buffer_of_def)
    show ?thesis unfolding f using 1 2 3 by blast
  qed
qed

lemma gets_append: "gets (xs @ ys) = gets xs @ gets ys"
  by (induction xs rule: gets.induct) simp_all

lemma gets_device_events:
  "gets (device_events en d) = (if TransferStart (device en d) = None then [d] else [])"
  by (simp add: device_events_def)

lemma gets_concat:
  "gets (concat (map (device_events en) ds)) =
     filter (\<lambda>d. TransferStart (device en d) = None) ds"
  by (induction ds) (simp_all add: gets_append gets_device_events)

lemma fire_cameras_task_count:
  assumes "triggered en devices"
  shows "length (new_tasks w (snd (fire_cameras en devices b w))) =
     length (filter (retrieved en) devices)"
proof -
  obtain ts where ts: "queue (snd (fire_cameras en devices b w)) = queue w @ ts"
      "map (\<lambda>t. (batch_of t, serial_of t)) ts =
         map (\<lambda>d. (b, serial_number en d)) (filter (retrieved en) devices)"
    using fire_cameras_appends [of en devices b w] assms by auto
  have "length ts = length (filter (retrieved en) devices)"
    using ts(2) by (metis length_map)
  then show ?thesis by (simp add: new_tasks_def ts(1))
qed

lemma triggered_all_well: "triggered all_well [0, 1, 2]"
  by (simp add: triggered_def all_well_def camera_def)

lemma retrieved_all_well: "filter (retrieved all_well) [0, 1, 2] = [0, 1, 2]"
  by (simp add: retrieved_def all_well_def camera_def slot_of_def)

text \<open>
  C4. A buffer handed out by \<open>get_buffer\<close> is to be requeued on every path out of the
  device's block. The code does not do so: the requeue is the last statement of the
  \<open>try\<close>, and a call that raises between \<open>get_buffer\<close> and the requeue leaves the
  buffer out. Here the single camera delivers slot 0 and then fails to stop the
  transfer: \<open>fire_cameras\<close> returns, the slot is still held, and no requeue was issued.
\<close>

theorem fire_cameras_leaks_buffer:
  "fst (fire_cameras stop_fails [0] 0 empty_world) = Inr () \<and>
   get_buffer (device stop_fails 0) = Inr (0, [0, 0, 0]) \<and>
   held (snd (fire_cameras stop_fails [0] 0 empty_world)) = [DeviceBuf 0 0] \<and>
   trace (snd (fire_cameras stop_fails [0] 0 empty_world)) =
     [EvLatch 0, EvReadLatchValue 0, EvSetExecuteTime 10005000, EvFireCommand,
      EvTransferStart 0, EvGetBuffer 0 500, EvTransferStop 0]"
  by (simp add: fire_cameras_def try_retrieve_def retrieve_def call_defs stop_fails_def
      all_well_def camera_def empty_world_def PTP_DELTA_def)

text \<open>
  C5. When the clock of the first device latches and reads \<open>t0\<close> and the write of the
  execution time returns, the first four commands of the cycle are: latch the first
  device, read its latched value, set the execution time to \<open>t0\<close> plus 10000000 (10 ms in
  nanoseconds), fire. The fire command is issued once in the cycle, and the execution
  time stays at \<open>t0 + 10000000\<close>. Nothing here depends on the batch or on the cycle.
\<close>

theorem fire_cameras_schedule:
  assumes "fire_cameras en (d # ds) batch w = (r, w')"
    and "PtpDataSetLatch (device en d) = None"
    and "PtpDataSetLatchValue (device en d) = Inr t0"
    and "ActionCommandExecuteTime en = None"
  shows "take 4 (new_events w w') =
           [EvLatch d, EvReadLatchValue d, EvSetExecuteTime (t0 + 10000000), EvFireCommand] \<and>
         count_list (new_events w w') EvFireCommand = 1 \<and>
         execute_time w' = Some (t0 + 10000000) \<and>
         PTP_DELTA = 10 * 1000 * 1000"
proof (cases "ActionCommandFireCommand en")
  case (Some e)
  have "w' = w\<lparr>execute_time := Some (t0 + PTP_DELTA),
        trace := trace w @ [EvLatch d, EvReadLatchValue d, EvSetExecuteTime (t0 + PTP_DELTA),
          EvFireCommand]\<rparr>"
    using fire_cameras_fire_raises [OF assms(2,3,4) Some, of ds batch w] assms(1) by simp
  then show ?thesis by (simp add: new_events_def PTP_DELTA_def)
next
  case None
  define devices where "devices = d # ds"
  have t: "triggered en devices"
    using None assms(2,3,4) by (simp add: triggered_def devices_def)
  have l: "latched en d = t0" using assms(3) by (simp add: latched_def)
  have hd: "hd devices = d" by (simp add: devices_def)
  have w': "w' = snd (fire_cameras en devices batch w)"
    using assms(1) by (simp add: devices_def)
  have tr: "trace w' = trace w @ [EvLatch d, EvReadLatchValue d,
      EvSetExecuteTime (t0 + PTP_DELTA), EvFireCommand] @
      concat (map (device_events en) devices)"
    unfolding w' by (simp add: fire_cameras_returns_world [OF t] hd fold_try_retrieve_trace
        trigger_simps l)
  have ex: "execute_time w' = Some (t0 + PTP_DELTA)"
    unfolding w' by (simp add: fire_cameras_returns_world [OF t] hd
        fold_try_retrieve_execute_time trigger_simps l)
  have ne: "new_events w w' = [EvLatch d, EvReadLatchValue d,
      EvSetExecuteTime (t0 + PTP_DELTA), EvFireCommand] @
      concat (map (device_events en) devices)"
    by (simp add: new_events_def tr)
  have c: "count_list (new_events w w') EvFireCommand = 1"
    unfolding ne using count_fire_concat [of en devices] by simp
  show ?thesis using ne c ex by (simp add: PTP_DELTA_def)
qed

theorem fire_cameras_schedule_witness:
  "take 4 (new_events empty_world (snd (fire_cameras one_timeout [0, 1, 2] 3 empty_world))) =
     [EvLatch 0, EvReadLatchValue 0, EvSetExecuteTime 10005000, EvFireCommand] \<and>
   count_list (new_events empty_world (snd (fire_cameras one_timeout [0, 1, 2] 3 empty_world)))
     EvFireCommand = 1 \<and>
   execute_time (snd (fire_cameras one_timeout [0, 1, 2] 3 empty_world)) = Some 10005000"
proof -
  have "PtpDataSetLatch (device one_timeout 0) = None"
    and "PtpDataSetLatchValue (device one_timeout 0) = Inr 5000"
    and "ActionCommandExecuteTime one_timeout = None"
    by (simp_all add: one_timeout_def all_well_def camera_def)
  from fire_cameras_schedule [where ds = "[1, 2]" and batch = 3 and w = empty_world,
      OF surjective_pairing this]
  show ?thesis by simp
qed

text \<open>
  C7. In a cycle whose trigger phase completes, let a device of the list fail in the
  start of its transfer, in \<open>get_buffer\<close> or in the stop of its transfer, with
  exception \<open>e\<close>. Then \<open>fire_cameras\<close> returns without an exception; a transfer is
  started on every device of the list, once each and in the order of the list; a buffer
  is asked once of every device whose transfer started; the text of \<open>e\<close> is printed; and
  the cycle adds fewer tasks than there are devices.
\<close>

theorem fire_cameras_contains_failure:
  assumes "fire_cameras en devices batch w = (r, w')"
    and "triggered en devices"
    and "d \<in> set devices"
    and "retrieval_failure en d = Some e"
  shows "r = Inr () \<and>
         starts (new_events w w') = devices \<and>
         gets (new_events w w') = filter (\<lambda>d. TransferStart (device en d) = None) devices \<and>
         str e \<in> set (new_output w w') \<and>
         length (new_tasks w w') < length devices"
proof -
  have w': "w' = snd (fire_cameras en devices batch w)"
    and r: "r = fst (fire_cameras en devices batch w)"
    using assms(1) by simp_all
  have r: "r = Inr ()"
    unfolding r by (simp add: fire_cameras_returns_world [OF assms(2)])
  have st: "starts (new_events w w') = devices"
    unfolding w' new_events_def
    by (simp add: fire_cameras_returns_world [OF assms(2)] fold_try_retrieve_trace
        trigger_simps starts_append starts_concat)
  have gt: "gets (new_events w w') = filter (\<lambda>d. TransferStart (device en d) = None) devices"
    unfolding w' new_events_def
    by (simp add: fire_cameras_returns_world [OF assms(2)] fold_try_retrieve_trace
        trigger_simps gets_append gets_concat)
  obtain out where out:
    "stdout (fold (try_retrieve en batch) devices (trigger en (hd devices) w)) =
       stdout (trigger en (hd devices) w) @ out"
    "\<forall>d \<in> set devices. \<forall>e. retrieval_failure en d = Some e \<longrightarrow> str e \<in> set out"
    using fold_try_retrieve_stdout [of en batch devices "trigger en (hd devices) w"] by blast
  have "str e \<in> set out" using out(2) assms(3,4) by blast
  then have pr: "str e \<in> set (new_output w w')"
    unfolding w' new_output_def
    by (simp add: fire_cameras_returns_world [OF assms(2)] out(1) trigger_simps)
  have nr: "\<not> retrieved en d"
    using assms(4)
    by (auto simp: retrieved_def retrieval_failure_def split: option.splits sum.splits)
  have "length (filter (retrieved en) devices) < length devices"
    using assms(3) nr by (simp add: length_filter_less)
  then have "length (new_tasks w w') < length devices"
    unfolding w' by (simp add: fire_cameras_task_count [OF assms(2)])
  with r st gt pr show ?thesis by simp
qed

theorem fire_cameras_contains_failure_witness:
  "triggered one_timeout [0, 1, 2] \<and>
   retrieval_failure one_timeout 1 = Some (TimeoutError ''timed out'') \<and>
   fst (fire_cameras one_timeout [0, 1, 2] 7 empty_world) = Inr () \<and>
   starts (new_events empty_world (snd (fire_cameras one_timeout [0, 1, 2] 7 empty_world))) =
     [0, 1, 2] \<and>
   gets (new_events empty_world (snd (fire_cameras one_timeout [0, 1, 2] 7 empty_world))) =
     [0, 1, 2] \<and>
   ''timed out'' \<in>
     set (new_output empty_world (snd (fire_cameras one_timeout [0, 1, 2] 7 empty_world))) \<and>
   length (new_tasks empty_world (snd (fire_cameras one_timeout [0, 1, 2] 7 empty_world))) < 3"
proof -
  have f: "retrieval_failure one_timeout 1 = Some (TimeoutError ''timed out'')"
    by (simp add: retrieval_failure_def one_timeout_def all_well_def camera_def)
  have m: "(1::nat) \<in> set [0, 1, 2]" by simp
  have g: "filter (\<lambda>d. TransferStart (device one_timeout d) = None) [0, 1, 2] = [0, 1, 2]"
    by (simp add: one_timeout_def all_well_def camera_def)
  from fire_cameras_contains_failure [where batch = 7 and w = empty_world,
      OF surjective_pairing triggered_one_timeout m f]
  show ?thesis using triggered_one_timeout f g by simp
qed

text \<open>
  C8. Every task that a cycle adds to the queue holds a buffer created by
  \<open>BufferFactory.copy\<close>, never a slot of a device: writing any bytes into any device
  slot leaves the bytes of the task's buffer as they are. When \<open>fire_cameras\<close> returns,
  the buffers of the new tasks hold the frames that their devices delivered, although
  by then the slots have been requeued and the devices may have written into them: the
  copy was taken before the requeue.
\<close>

theorem tasks_hold_copies:
  assumes "fire_cameras en devices batch w = (r, w')"
  shows "(\<forall>t \<in> set (new_tasks w w'). \<exists>n. buffer_of t = CopyBuf n) \<and>
         (\<forall>t \<in> set (new_tasks w w'). \<forall>d slot v.
            ((store w')(DeviceBuf d slot := v)) (buffer_of t) = store w' (buffer_of t)) \<and>
         (triggered en devices \<longrightarrow>
            map (\<lambda>t. store w' (buffer_of t)) (new_tasks w w') =
              map (image_of en) (filter (retrieved en) devices))"
proof (cases "triggered en devices")
  case False
  then have "queue w' = queue w"
    using fire_cameras_raises [of en devices batch w] assms by simp
  then show ?thesis using False by (simp add: new_tasks_def)
next
  case True
  define w0 where "w0 = trigger en (hd devices) w"
  define w1 where "w1 = fold (try_retrieve en batch) devices w0"
  have w': "w' = snd (fire_cameras en devices batch w)" using assms by simp
  have q: "queue w' = queue w1" and s: "store w' = store w1"
    unfolding w' w1_def w0_def by (simp_all add: fire_cameras_returns_world [OF True])
  obtain ts where ts: "queue w1 = queue w0 @ ts"
    "map (\<lambda>t. store w1 (buffer_of t)) ts = map (image_of en) (filter (retrieved en) devices)"
    "\<forall>t \<in> set ts. \<exists>n. buffer_of t = CopyBuf n \<and> next_copy w0 \<le> n \<and> n < next_copy w1"
    using fold_try_retrieve_copies [of en batch devices w0] unfolding w1_def by blast
  have n: "new_tasks w w' = ts"
    by (simp add: new_tasks_def q ts(1) w0_def trigger_simps)
  have 1: "\<forall>t \<in> set ts. \<exists>n. buffer_of t = CopyBuf n" using ts(3) by blast
  then have 2: "\<forall>t \<in> set ts. \<forall>d slot v.
      ((store w')(DeviceBuf d slot := v)) (buffer_of t) = store w' (buffer_of t)"
    by auto
  show ?thesis unfolding n using 1 2 ts(2) s by simp
qed

theorem tasks_hold_copies_witness:
  "triggered all_well [0, 1, 2] \<and>
   map (\<lambda>t. store (snd (fire_cameras all_well [0, 1, 2] 7 empty_world)) (buffer_of t))
     (new_tasks empty_world (snd (fire_cameras all_well [0, 1, 2] 7 empty_world))) =
     [[0, 0, 0], [1, 1, 1], [2, 2, 2]] \<and>
   map (\<lambda>d. store (snd (fire_cameras all_well [0, 1, 2] 7 empty_world)) (DeviceBuf d 0))
     [0, 1, 2] = [[9], [9], [9]]"
proof -
  have i: "map (image_of all_well) [0, 1, 2] = [[0, 0, 0], [1, 1, 1], [2, 2, 2]]"
    by (simp add: image_of_def all_well_def camera_def)
  have d: "map (\<lambda>d. store (snd (fire_cameras all_well [0, 1, 2] 7 empty_world)) (DeviceBuf d 0))
     [0, 1, 2] = [[9], [9], [9]]"
    by (simp add: fire_cameras_def try_retrieve_def retrieve_def call_defs
        all_well_def camera_def empty_world_def)
  from tasks_hold_copies [where en = all_well and devices = "[0, 1, 2]" and batch = 7
      and w = empty_world, OF surjective_pairing]
  show ?thesis using triggered_all_well retrieved_all_well i d by simp
qed

section \<open>Properties of the interactive loop\<close>

lemma queue_print: "queue (snd (print s w)) = queue w"
  by (simp add: print_def)

lemma after_cycles_Suc_queue:
  "queue (after_cycles envs devices (Suc k) w) =
     queue (after_cycles envs devices k w) @ cycle_tasks envs devices w k \<and>
   (\<forall>t \<in> set (cycle_tasks envs devices w k). batch_of t = int k)"
proof -
  define w0 where "w0 = snd (print prompt (after_cycles envs devices k w))"
  obtain ts where ts: "queue (snd (fire_cameras (envs (int k)) devices (int k) w0)) = queue w0 @ ts"
    "\<forall>t \<in> set ts. batch_of t = int k"
    using fire_cameras_appends [of "envs (int k)" devices "int k" w0] by blast
  have q0: "queue w0 = queue (after_cycles envs devices k w)"
    by (simp add: w0_def queue_print)
  have q: "queue (after_cycles envs devices (Suc k) w) = queue (after_cycles envs devices k w) @ ts"
    using ts(1) q0 by (simp add: w0_def)
  then have "cycle_tasks envs devices w k = ts"
    by (simp add: cycle_tasks_def new_tasks_def)
  with q ts(2) show ?thesis by simp
qed

lemma after_cycles_queue:
  "queue (after_cycles envs devices n w) =
     queue w @ concat (map (cycle_tasks envs devices w) [0..<n])"
proof (induction n)
  case 0
  show ?case by simp
next
  case (Suc n)
  show ?case
    using after_cycles_Suc_queue [of envs devices n w] Suc.IH by simp
qed

lemma capture_loop_cycles:
  "capture_loop envs devices lines b (after_cycles envs devices m w) = (r, w') \<Longrightarrow>
   b = int m \<Longrightarrow>
   \<exists>n. m \<le> n \<and> n \<le> m + presses lines \<and>
       (\<forall>b'. r = Inr b' \<longrightarrow> b' = int n \<and> n = m + presses lines) \<and>
       queue w' = queue (after_cycles envs devices n w)"
proof (induction lines arbitrary: m b)
  case Nil
  then have "queue w' = queue (after_cycles envs devices m w)" "isl r"
    by (auto simp: queue_print)
  then show ?case by (intro exI [of _ m]) auto
next
  case (Cons line lines)
  show ?case
  proof (cases "line = ''q''")
    case True
    then have "queue w' = queue (after_cycles envs devices m w)" "r = Inr (int m)"
      using Cons.prems by (auto simp: queue_print)
    then show ?thesis using True by (intro exI [of _ m]) (simp add: presses_def)
  next
    case False
    define w0 where "w0 = snd (print prompt (after_cycles envs devices m w))"
    define x where "x = fst (fire_cameras (envs b) devices b w0)"
    define w1 where "w1 = snd (fire_cameras (envs b) devices b w0)"
    have f: "fire_cameras (envs b) devices b w0 = (x, w1)"
      by (simp add: x_def w1_def)
    have w1: "w1 = after_cycles envs devices (Suc m) w"
      unfolding w1_def w0_def Cons.prems(2) by simp
    have p: "presses (line # lines) = Suc (presses lines)"
      using False by (simp add: presses_def)
    have c: "(case (x, w1) of
         (Inl e, w') \<Rightarrow> (Inl e, w')
       | (Inr _, w') \<Rightarrow> capture_loop envs devices lines (b + 1) w') = (r, w')"
      using Cons.prems(1) False unfolding f [symmetric] w0_def by simp
    show ?thesis
    proof (cases x)
      case (Inl e)
      then have "w' = w1" "r = Inl e" using c by auto
      then show ?thesis using p w1 by (intro exI [of _ "Suc m"]) simp
    next
      case (Inr u)
      then have 1: "capture_loop envs devices lines (b + 1) (after_cycles envs devices (Suc m) w)
          = (r, w')"
        using c w1 by simp
      have 2: "b + 1 = int (Suc m)" using Cons.prems(2) by simp
      have 3: "Suc m + presses lines = m + presses (line # lines)" using p by simp
      from Cons.IH [OF 1 2] obtain n where n:
        "Suc m \<le> n" "n \<le> Suc m + presses lines"
        "\<forall>b'. r = Inr b' \<longrightarrow> b' = int n \<and> n = Suc m + presses lines"
        "queue w' = queue (after_cycles envs devices n w)" by blast
      show ?thesis
      proof (intro exI [of _ n] conjI)
        show "m \<le> n" using n(1) by simp
        show "n \<le> m + presses (line # lines)" using n(2) unfolding 3 .
        show "\<forall>b'. r = Inr b' \<longrightarrow> b' = int n \<and> n = m + presses (line # lines)"
          using n(3) unfolding 3 .
        show "queue w' = queue (after_cycles envs devices n w)" by (rule n(4))
      qed
    qed
  qed
qed

text \<open>
  C9. Whatever the loop comes to (the user enters \<open>q\<close>, the input ends, or a call of
  \<open>fire_cameras\<close> raises), it has made some number \<open>n\<close> of calls of \<open>fire_cameras\<close>,
  at most one for each line entered before the first \<open>q\<close>, and the queue is the one that
  calls with the batch numbers 0, 1, ..., \<open>n - 1\<close> in this order leave. When the loop
  ends on \<open>q\<close>, \<open>n\<close> is the number of lines entered before it and is the final value of
  \<open>batch\<close>. The tasks of the \<open>k\<close>-th call all carry batch \<open>k\<close>, so a task of a later
  call carries a strictly larger batch than a task of an earlier call.
\<close>

theorem batch_indices_increase:
  assumes "capture_loop envs devices lines 0 w = (r, w')"
  shows "\<exists>n. n \<le> presses lines \<and>
           (\<forall>b. r = Inr b \<longrightarrow> b = int n \<and> n = presses lines) \<and>
           queue w' = queue (after_cycles envs devices n w) \<and>
           queue w' = queue w @ concat (map (cycle_tasks envs devices w) [0..<n]) \<and>
           (\<forall>k < n. \<forall>t \<in> set (cycle_tasks envs devices w k). batch_of t = int k) \<and>
           (\<forall>i j. i < j \<and> j < n \<longrightarrow>
              (\<forall>t \<in> set (cycle_tasks envs devices w i).
               \<forall>t' \<in> set (cycle_tasks envs devices w j). batch_of t < batch_of t'))"
proof -
  have "capture_loop envs devices lines 0 (after_cycles envs devices 0 w) = (r, w')"
    using assms by simp
  from capture_loop_cycles [where m = 0, OF this] obtain n where n:
    "n \<le> presses lines" "\<forall>b. r = Inr b \<longrightarrow> b = int n \<and> n = presses lines"
    "queue w' = queue (after_cycles envs devices n w)" by auto
  have b: "\<And>k. \<forall>t \<in> set (cycle_tasks envs devices w k). batch_of t = int k"
    using after_cycles_Suc_queue by blast
  have c: "\<forall>i j. i < j \<and> j < n \<longrightarrow>
      (\<forall>t \<in> set (cycle_tasks envs devices w i).
       \<forall>t' \<in> set (cycle_tasks envs devices w j). batch_of t < batch_of t')"
    using b by simp
  have q: "queue w' = queue w @ concat (map (cycle_tasks envs devices w) [0..<n])"
    using n(3) after_cycles_queue [of envs devices n w] by simp
  show ?thesis
  proof (intro exI [of _ n] conjI)
    show "n \<le> presses lines" by (rule n(1))
    show "\<forall>b. r = Inr b \<longrightarrow> b = int n \<and> n = presses lines" by (rule n(2))
    show "queue w' = queue (after_cycles envs devices n w)" by (rule n(3))
    show "queue w' = queue w @ concat (map (cycle_tasks envs devices w) [0..<n])" by (rule q)
    show "\<forall>k < n. \<forall>t \<in> set (cycle_tasks envs devices w k). batch_of t = int k"
      using b by blast
    show "\<forall>i j. i < j \<and> j < n \<longrightarrow>
      (\<forall>t \<in> set (cycle_tasks envs devices w i).
       \<forall>t' \<in> set (cycle_tasks envs devices w j). batch_of t < batch_of t')" by (rule c)
  qed
qed

lemmas run_defs = fire_cameras_def try_retrieve_def retrieve_def call_defs
  one_timeout_def all_well_def camera_def empty_world_def prompt_def

lemma session_result:
  "fst (capture_loop (\<lambda>_. one_timeout) [0, 1, 2] session 0 empty_world) = Inr 2"
  by (simp add: session_def run_defs)

lemma session_batches:
  "map batch_of (queue (snd (capture_loop (\<lambda>_. one_timeout) [0, 1, 2] session 0 empty_world)))
     = [0, 0, 1, 1]"
  by (simp add: session_def run_defs batch_of_def)

lemma session_presses: "presses session = 2"
  by (simp add: session_def presses_def)

theorem batch_indices_increase_witness:
  "presses session = 2 \<and>
   fst (capture_loop (\<lambda>_. one_timeout) [0, 1, 2] session 0 empty_world) = Inr 2 \<and>
   queue (snd (capture_loop (\<lambda>_. one_timeout) [0, 1, 2] session 0 empty_world)) =
     queue (after_cycles (\<lambda>_. one_timeout) [0, 1, 2] 2 empty_world) \<and>
   map batch_of (queue (snd (capture_loop (\<lambda>_. one_timeout) [0, 1, 2] session 0 empty_world)))
     = [0, 0, 1, 1]"
proof -
  define R where "R = capture_loop (\<lambda>_. one_timeout) [0, 1, 2] session 0 empty_world"
  have R: "capture_loop (\<lambda>_. one_timeout) [0, 1, 2] session 0 empty_world = (fst R, snd R)"
    by (simp add: R_def)
  have r: "fst R = Inr 2" unfolding R_def by (rule session_result)
  from batch_indices_increase [OF R]
  obtain n where n:
    "n \<le> presses session"
    "\<forall>b. fst R = Inr b \<longrightarrow> b = int n \<and> n = presses session"
    "queue (snd R) = queue (after_cycles (\<lambda>_. one_timeout) [0, 1, 2] n empty_world)"
    by (elim exE conjE) (rule that, assumption+)
  from n(2) r have "n = presses session" by (elim allE [of _ 2]) simp
  then have "n = 2" using session_presses by simp
  with n(3) have q: "queue (snd R) = queue (after_cycles (\<lambda>_. one_timeout) [0, 1, 2] 2 empty_world)"
    by simp
  show ?thesis
  proof (intro conjI)
    show "presses session = 2" by (rule session_presses)
    show "fst (capture_loop (\<lambda>_. one_timeout) [0, 1, 2] session 0 empty_world) = Inr 2"
      by (rule session_result)
    show "queue (snd (capture_loop (\<lambda>_. one_timeout) [0, 1, 2] session 0 empty_world)) =
      queue (after_cycles (\<lambda>_. one_timeout) [0, 1, 2] 2 empty_world)"
      using q unfolding R_def .
    show "map batch_of
       (queue (snd (capture_loop (\<lambda>_. one_timeout) [0, 1, 2] session 0 empty_world))) =
      [0, 0, 1, 1]"
      by (rule session_batches)
  qed
qed

section \<open>Properties of \<open>wait_for_sync\<close>\<close>

lemma read_all_ok:
  "list_all (\<lambda>d. \<not> isl (rd d)) ds \<Longrightarrow> read_all rd ds = Inr (map (\<lambda>d. projr (rd d)) ds)"
  by (induction ds) (auto split: sum.splits)

lemma read_all_raises:
  "\<not> list_all (\<lambda>d. \<not> isl (rd d)) ds \<Longrightarrow> \<exists>e. read_all rd ds = Inl e"
  by (induction ds) (auto split: sum.splits)

lemma masters_at_read:
  "polled P ds k \<Longrightarrow>
     read_all (P k) ds = Inr (map (\<lambda>d. projr (P k d)) ds)"
  unfolding polled_def by (rule read_all_ok)

text \<open>One turn of the loop.\<close>

lemma sync_loop_turn:
  assumes "masters s \<noteq> 1" and "polled P ds (polls s)"
  shows "sync_loop P ds s =
     sync_loop P ds \<lparr>masters = masters_at P ds (polls s), polls = Suc (polls s),
       slept = slept s + 2, printed = printed s @ [''.'']\<rparr>"
  using assms by (subst sync_loop.simps) (simp add: masters_at_read masters_at_def)

lemma sync_loop_exit:
  assumes "masters s = 1"
  shows "sync_loop P ds s = Some (Inr (s\<lparr>printed := printed s @ ['' | OK '']\<rparr>))"
  using assms by (subst sync_loop.simps) simp

lemma sync_loop_raise:
  assumes "masters s \<noteq> 1" and "\<not> polled P ds (polls s)"
  shows "\<exists>e. sync_loop P ds s = Some (Inl e)"
proof -
  obtain e where "read_all (P (polls s)) ds = Inl e"
    using assms(2) read_all_raises unfolding polled_def by blast
  then show ?thesis using assms(1) by (subst sync_loop.simps) simp
qed

lemma sync_loop_settles:
  assumes "masters s \<noteq> 1"
    and "\<forall>k < n. polled P ds (polls s + k) \<and> masters_at P ds (polls s + k) \<noteq> 1"
    and "polled P ds (polls s + n)" and "masters_at P ds (polls s + n) = 1"
  shows "sync_loop P ds s =
     Some (Inr \<lparr>masters = 1, polls = polls s + Suc n, slept = slept s + 2 * Suc n,
       printed = printed s @ replicate (Suc n) ''.'' @ ['' | OK '']\<rparr>)"
  using assms
proof (induction n arbitrary: s)
  case 0
  then have "sync_loop P ds s =
     sync_loop P ds \<lparr>masters = 1, polls = Suc (polls s),
       slept = slept s + 2, printed = printed s @ [''.'']\<rparr>"
    using sync_loop_turn [of s P ds] by simp
  then show ?case by (simp add: sync_loop_exit)
next
  case (Suc n)
  define s1 where "s1 = \<lparr>masters = masters_at P ds (polls s), polls = Suc (polls s),
       slept = slept s + 2, printed = printed s @ [''.'']\<rparr>"
  have 0: "polled P ds (polls s)" "masters_at P ds (polls s) \<noteq> 1"
    using Suc.prems(2) by (metis add.right_neutral zero_less_Suc)+
  have t: "sync_loop P ds s = sync_loop P ds s1"
    unfolding s1_def using Suc.prems(1) 0(1) by (rule sync_loop_turn)
  have 1: "masters s1 \<noteq> 1" using 0(2) by (simp add: s1_def)
  have 2: "\<forall>k < n. polled P ds (polls s1 + k) \<and> masters_at P ds (polls s1 + k) \<noteq> 1"
  proof (intro allI impI)
    fix k assume "k < n"
    then have "Suc k < Suc n" by simp
    then have "polled P ds (polls s + Suc k) \<and> masters_at P ds (polls s + Suc k) \<noteq> 1"
      using Suc.prems(2) by blast
    then show "polled P ds (polls s1 + k) \<and> masters_at P ds (polls s1 + k) \<noteq> 1"
      by (simp add: s1_def)
  qed
  have 3: "polled P ds (polls s1 + n)" "masters_at P ds (polls s1 + n) = 1"
    using Suc.prems(3,4) by (simp_all add: s1_def)
  have "sync_loop P ds s1 =
     Some (Inr \<lparr>masters = 1, polls = polls s1 + Suc n, slept = slept s1 + 2 * Suc n,
       printed = printed s1 @ replicate (Suc n) ''.'' @ ['' | OK '']\<rparr>)"
    using 1 2 3 by (rule Suc.IH)
  then show ?case unfolding t by (simp add: s1_def replicate_app_Cons_same)
qed

lemma sync_loop_fails:
  assumes "masters s \<noteq> 1"
    and "\<forall>k < n. polled P ds (polls s + k) \<and> masters_at P ds (polls s + k) \<noteq> 1"
    and "\<not> polled P ds (polls s + n)"
  shows "\<exists>e. sync_loop P ds s = Some (Inl e)"
  using assms
proof (induction n arbitrary: s)
  case 0
  then show ?case using sync_loop_raise [of s P ds] by simp
next
  case (Suc n)
  define s1 where "s1 = \<lparr>masters = masters_at P ds (polls s), polls = Suc (polls s),
       slept = slept s + 2, printed = printed s @ [''.'']\<rparr>"
  have 0: "polled P ds (polls s)" "masters_at P ds (polls s) \<noteq> 1"
    using Suc.prems(2) by (metis add.right_neutral zero_less_Suc)+
  have t: "sync_loop P ds s = sync_loop P ds s1"
    unfolding s1_def using Suc.prems(1) 0(1) by (rule sync_loop_turn)
  have 1: "masters s1 \<noteq> 1" using 0(2) by (simp add: s1_def)
  have 2: "\<forall>k < n. polled P ds (polls s1 + k) \<and> masters_at P ds (polls s1 + k) \<noteq> 1"
  proof (intro allI impI)
    fix k assume "k < n"
    then have "Suc k < Suc n" by simp
    then have "polled P ds (polls s + Suc k) \<and> masters_at P ds (polls s + Suc k) \<noteq> 1"
      using Suc.prems(2) by blast
    then show "polled P ds (polls s1 + k) \<and> masters_at P ds (polls s1 + k) \<noteq> 1"
      by (simp add: s1_def)
  qed
  have 3: "\<not> polled P ds (polls s1 + n)"
    using Suc.prems(3) by (simp add: s1_def)
  show ?case unfolding t using 1 2 3 by (rule Suc.IH)
qed

lemma sync_loop_never:
  assumes "sync_loop P ds s = Some y"
  shows "\<not> (masters s \<noteq> 1 \<and>
            (\<forall>k. polled P ds (polls s + k) \<and> masters_at P ds (polls s + k) \<noteq> 1))"
  using assms
proof (induction P ds s y rule: sync_loop.raw_induct [rotated 1, consumes 1])
  case (1 loop P ds s y)
  show ?case
  proof
    assume a: "masters s \<noteq> 1 \<and>
            (\<forall>k. polled P ds (polls s + k) \<and> masters_at P ds (polls s + k) \<noteq> 1)"
    define s1 where "s1 = \<lparr>masters = masters_at P ds (polls s), polls = Suc (polls s),
       slept = slept s + 2, printed = printed s @ [''.'']\<rparr>"
    have 0: "polled P ds (polls s)" "masters_at P ds (polls s) \<noteq> 1"
      using a by (metis add.right_neutral)+
    have "loop P ds s1 = Some y"
      using 1(2) a 0(1) by (simp add: masters_at_read masters_at_def s1_def)
    from 1(1) [OF this] have "\<not> (masters s1 \<noteq> 1 \<and>
         (\<forall>k. polled P ds (polls s1 + k) \<and> masters_at P ds (polls s1 + k) \<noteq> 1))" .
    moreover have "masters s1 \<noteq> 1" using 0(2) by (simp add: s1_def)
    moreover have "\<forall>k. polled P ds (polls s1 + k) \<and> masters_at P ds (polls s1 + k) \<noteq> 1"
    proof
      fix k
      have "polled P ds (polls s + Suc k) \<and> masters_at P ds (polls s + Suc k) \<noteq> 1"
        using a by blast
      then show "polled P ds (polls s1 + k) \<and> masters_at P ds (polls s1 + k) \<noteq> 1"
        by (simp add: s1_def)
    qed
    ultimately show False by blast
  qed
qed

lemma wait_for_sync_start: "wait_for_sync P ds = sync_loop P ds sync_start"
  by (simp add: wait_for_sync_def sync_start_def)

lemma wait_for_sync_settles:
  assumes "\<forall>k < n. polled P ds k \<and> masters_at P ds k \<noteq> 1"
    and "polled P ds n" and "masters_at P ds n = 1"
  shows "wait_for_sync P ds =
     Some (Inr \<lparr>masters = 1, polls = Suc n, slept = 2 * Suc n,
       printed = ''Waiting for PTP Sync...'' # replicate (Suc n) ''.'' @ ['' | OK '']\<rparr>)"
  using sync_loop_settles [of sync_start n P ds] assms
  by (simp add: wait_for_sync_start) (simp add: sync_start_def)

lemma wait_for_sync_fails:
  assumes "\<forall>k < n. polled P ds k \<and> masters_at P ds k \<noteq> 1" and "\<not> polled P ds n"
  shows "\<exists>e. wait_for_sync P ds = Some (Inl e)"
  using sync_loop_fails [of sync_start n P ds] assms
  by (simp add: wait_for_sync_start) (simp add: sync_start_def)

lemma wait_for_sync_never:
  assumes "\<forall>k. polled P ds k \<and> masters_at P ds k \<noteq> 1"
  shows "wait_for_sync P ds = None"
proof (cases "wait_for_sync P ds")
  case None
  then show ?thesis .
next
  case (Some y)
  then have "sync_loop P ds sync_start = Some y" by (simp add: wait_for_sync_start)
  from sync_loop_never [OF this] show ?thesis using assms by (simp add: sync_start_def)
qed

lemma wait_for_sync_returned:
  assumes r: "wait_for_sync P ds = Some (Inr s)"
  shows "0 < polls s \<and> slept s = 2 * polls s \<and>
        masters_at P ds (polls s - 1) = 1 \<and>
        (\<forall>k < polls s - 1. masters_at P ds k \<noteq> 1) \<and>
        (\<forall>k < polls s. polled P ds k)"
proof -
  define settled where "settled k \<longleftrightarrow> \<not> polled P ds k \<or> masters_at P ds k = 1" for k
  have "\<exists>k. settled k"
  proof (rule ccontr)
    assume "\<not> (\<exists>k. settled k)"
    then have "\<forall>k. polled P ds k \<and> masters_at P ds k \<noteq> 1" by (simp add: settled_def)
    then have "wait_for_sync P ds = None" by (rule wait_for_sync_never)
    with r show False by simp
  qed
  then obtain n where n: "settled n" "\<forall>k < n. \<not> settled k"
    using exists_least_iff [of settled] by blast
  have before: "\<forall>k < n. polled P ds k \<and> masters_at P ds k \<noteq> 1"
    using n(2) by (simp add: settled_def)
  have p: "polled P ds n"
  proof (rule ccontr)
    assume "\<not> polled P ds n"
    with before obtain e where "wait_for_sync P ds = Some (Inl e)"
      using wait_for_sync_fails by blast
    with r show False by simp
  qed
  then have m: "masters_at P ds n = 1" using n(1) by (simp add: settled_def)
  have "wait_for_sync P ds =
     Some (Inr \<lparr>masters = 1, polls = Suc n, slept = 2 * Suc n,
       printed = ''Waiting for PTP Sync...'' # replicate (Suc n) ''.'' @ ['' | OK '']\<rparr>)"
    using before p m by (rule wait_for_sync_settles)
  with r have s: "polls s = Suc n" "slept s = 2 * Suc n" by auto
  have all: "\<forall>k < Suc n. polled P ds k" using before p by (simp add: less_Suc_eq)
  show ?thesis
    unfolding s using m before all by simp
qed

text \<open>
  C3. Each turn of the loop reads the status of every device of the list, counts the
  answers \<open>Master\<close> and asks for a sleep of 2 seconds. If every poll is answered and the
  count is never 1, the call does not return. If the count is 1 for the first time at
  poll \<open>n\<close> (counted from 0), and the polls up to there are answered, the call returns
  after \<open>n + 1\<close> polls, having slept \<open>2 * (n + 1)\<close> seconds. Conversely, whenever the
  call returns, the count was 1 at its last poll and at no poll before, and the seconds
  slept are twice the number of polls. (A read that raises ends the call with that
  exception.)
\<close>

theorem wait_for_sync_returns:
  "((\<forall>k. polled P ds k \<and> masters_at P ds k \<noteq> 1) \<longrightarrow> wait_for_sync P ds = None) \<and>
   (\<forall>n. (\<forall>k < n. polled P ds k \<and> masters_at P ds k \<noteq> 1) \<and>
        polled P ds n \<and> masters_at P ds n = 1 \<longrightarrow>
        (\<exists>s. wait_for_sync P ds = Some (Inr s) \<and> polls s = Suc n \<and> slept s = 2 * Suc n)) \<and>
   (\<forall>s. wait_for_sync P ds = Some (Inr s) \<longrightarrow>
        0 < polls s \<and> slept s = 2 * polls s \<and>
        masters_at P ds (polls s - 1) = 1 \<and>
        (\<forall>k < polls s - 1. masters_at P ds k \<noteq> 1) \<and>
        (\<forall>k < polls s. polled P ds k))"
proof -
  have 1: "(\<forall>k. polled P ds k \<and> masters_at P ds k \<noteq> 1) \<longrightarrow> wait_for_sync P ds = None"
    using wait_for_sync_never by blast
  have 2: "\<forall>n. (\<forall>k < n. polled P ds k \<and> masters_at P ds k \<noteq> 1) \<and>
        polled P ds n \<and> masters_at P ds n = 1 \<longrightarrow>
        (\<exists>s. wait_for_sync P ds = Some (Inr s) \<and> polls s = Suc n \<and> slept s = 2 * Suc n)"
  proof (intro allI impI)
    fix n
    assume a: "(\<forall>k < n. polled P ds k \<and> masters_at P ds k \<noteq> 1) \<and>
        polled P ds n \<and> masters_at P ds n = 1"
    have "wait_for_sync P ds =
       Some (Inr \<lparr>masters = 1, polls = Suc n, slept = 2 * Suc n,
         printed = ''Waiting for PTP Sync...'' # replicate (Suc n) ''.'' @ ['' | OK '']\<rparr>)"
      using a by (intro wait_for_sync_settles) simp_all
    then show "\<exists>s. wait_for_sync P ds = Some (Inr s) \<and> polls s = Suc n \<and> slept s = 2 * Suc n"
      by simp
  qed
  have 3: "\<forall>s. wait_for_sync P ds = Some (Inr s) \<longrightarrow>
        0 < polls s \<and> slept s = 2 * polls s \<and>
        masters_at P ds (polls s - 1) = 1 \<and>
        (\<forall>k < polls s - 1. masters_at P ds k \<noteq> 1) \<and>
        (\<forall>k < polls s. polled P ds k)"
    using wait_for_sync_returned by blast
  from 1 2 3 show ?thesis by (intro conjI)
qed

lemma two_masters_never:
  "\<forall>k. polled two_masters fleet k \<and> masters_at two_masters fleet k \<noteq> 1"
  by (simp add: polled_def masters_at_def two_masters_def fleet_def)

lemma settles_at_third_polled: "polled settles_at_third fleet k"
  by (simp add: polled_def settles_at_third_def fleet_def)

lemma settles_at_third_masters:
  "masters_at settles_at_third fleet k = (if 2 \<le> k then 1 else 0)"
  by (simp add: masters_at_def settles_at_third_def fleet_def)

lemma settles_at_third_first:
  "(\<forall>k < 2. polled settles_at_third fleet k \<and> masters_at settles_at_third fleet k \<noteq> 1) \<and>
   polled settles_at_third fleet 2 \<and> masters_at settles_at_third fleet 2 = 1"
  by (simp add: settles_at_third_polled settles_at_third_masters)

theorem wait_for_sync_returns_witness:
  "wait_for_sync two_masters fleet = None \<and>
   (\<exists>s. wait_for_sync settles_at_third fleet = Some (Inr s) \<and> polls s = 3 \<and> slept s = 6 \<and>
        masters_at settles_at_third fleet (polls s - 1) = 1)"
proof -
  note t1 = wait_for_sync_returns [of two_masters fleet, THEN conjunct1]
  note t2 = wait_for_sync_returns [of settles_at_third fleet, THEN conjunct2, THEN conjunct1,
      THEN spec, of 2]
  note t3 = wait_for_sync_returns [of settles_at_third fleet, THEN conjunct2, THEN conjunct2]
  have a: "wait_for_sync two_masters fleet = None"
    using t1 two_masters_never by (rule mp)
  have "\<exists>s. wait_for_sync settles_at_third fleet = Some (Inr s) \<and>
      polls s = Suc 2 \<and> slept s = 2 * Suc 2"
    using t2 settles_at_third_first by (rule mp)
  then obtain s where s: "wait_for_sync settles_at_third fleet = Some (Inr s)"
    "polls s = 3" "slept s = 6" by auto
  have "masters_at settles_at_third fleet (polls s - 1) = 1"
    using t3 [THEN spec, of s, THEN mp, OF s(1)] by (elim conjE)
  with s have b: "\<exists>s. wait_for_sync settles_at_third fleet = Some (Inr s) \<and>
      polls s = 3 \<and> slept s = 6 \<and> masters_at settles_at_third fleet (polls s - 1) = 1"
    by (intro exI [of _ s]) simp
  from a b show ?thesis by (rule conjI)
qed

section \<open>Properties of \<open>save_image_buffers\<close>\<close>

lemma puts_append: "puts (xs @ ys) = puts xs @ puts ys"
  by (induction xs rule: puts.induct) simp_all

lemma worker_step_accounted:
  assumes "accounted sid s h"
  shows "accounted sid (worker_step sid save s) h"
proof -
  obtain dn lost where a: "saved s = map (file_of sid) dn" "in_hand (pc s) lost"
    "h = dn @ lost @ buffer_queue s"
    using assms unfolding accounted_def by blast
  show ?thesis
  proof (cases "pc s")
    case Get
    show ?thesis
    proof (cases "buffer_queue s")
      case Nil
      then show ?thesis using assms Get by (simp add: worker_step_def)
    next
      case (Cons task rest)
      have "lost = []" using a(2) Get by (simp add: in_hand_def)
      then have "h = dn @ [task] @ rest" using a(3) Cons by simp
      then show ?thesis unfolding accounted_def using a(1) Get Cons
        by (intro exI [of _ dn] exI [of _ "[task]"]) (simp add: worker_step_def in_hand_def)
    qed
  next
    case (Save task)
    obtain buffer batch serial where t: "task = (buffer, batch, serial)"
      by (cases task) auto
    have l: "lost = [task]" using a(2) Save by (simp add: in_hand_def)
    show ?thesis
    proof (cases "save buffer (frame_path sid batch serial)")
      case None
      have "saved (worker_step sid save s) = map (file_of sid) (dn @ [task])"
        using Save t None a(1)
        by (simp add: worker_step_def file_of_def buffer_of_def batch_of_def serial_of_def)
      moreover have "pc (worker_step sid save s) = Inner_empty"
        "buffer_queue (worker_step sid save s) = buffer_queue s"
        using Save t None by (simp_all add: worker_step_def)
      moreover have "h = (dn @ [task]) @ [] @ buffer_queue s" using a(3) l by simp
      ultimately show ?thesis unfolding accounted_def
        by (intro exI [of _ "dn @ [task]"] exI [of _ "[]"]) (simp add: in_hand_def)
    next
      case (Some e)
      have "saved (worker_step sid save s) = saved s" "pc (worker_step sid save s) = Raised e"
        "buffer_queue (worker_step sid save s) = buffer_queue s"
        using Save t Some by (simp_all add: worker_step_def)
      then show ?thesis unfolding accounted_def using a(1,3) l
        by (intro exI [of _ dn] exI [of _ "[task]"]) (simp add: in_hand_def)
    qed
  next
    case Outer_to_do
    then show ?thesis using a unfolding accounted_def
      by (intro exI [of _ dn] exI [of _ lost]) (simp add: worker_step_def in_hand_def)
  next
    case Outer_empty
    then show ?thesis using a unfolding accounted_def
      by (intro exI [of _ dn] exI [of _ lost]) (simp add: worker_step_def in_hand_def)
  next
    case Inner_empty
    then show ?thesis using a unfolding accounted_def
      by (intro exI [of _ dn] exI [of _ lost]) (simp add: worker_step_def in_hand_def)
  next
    case Sleep
    then show ?thesis using a unfolding accounted_def
      by (intro exI [of _ dn] exI [of _ lost]) (simp add: worker_step_def in_hand_def)
  next
    case Returned
    then show ?thesis using assms by (simp add: worker_step_def)
  next
    case (Raised e)
    then show ?thesis using assms by (simp add: worker_step_def)
  qed
qed

lemma step_accounted:
  assumes "accounted sid s h"
  shows "accounted sid (step sid save a s) (h @ puts [a])"
proof (cases a)
  case (Put task)
  obtain dn lost where a: "saved s = map (file_of sid) dn" "in_hand (pc s) lost"
    "h = dn @ lost @ buffer_queue s"
    using assms unfolding accounted_def by blast
  then show ?thesis unfolding accounted_def using Put
    by (intro exI [of _ dn] exI [of _ lost]) simp
next
  case Signal
  then show ?thesis using assms by (simp add: accounted_def)
next
  case Worker
  then show ?thesis using worker_step_accounted [OF assms] by simp
qed

lemma run_accounted:
  "accounted sid s h \<Longrightarrow> accounted sid (run sid save schedule s) (h @ puts schedule)"
proof (induction schedule arbitrary: s h)
  case Nil
  then show ?case by (simp add: run_def)
next
  case (Cons a as)
  have "accounted sid (step sid save a s) (h @ puts [a])"
    using Cons.prems by (rule step_accounted)
  from Cons.IH [OF this] have
    "accounted sid (run sid save as (step sid save a s)) ((h @ puts [a]) @ puts as)" .
  moreover have "puts (a # as) = puts [a] @ puts as"
    using puts_append [of "[a]" as] by simp
  ultimately show ?case by (simp add: run_def)
qed

lemma accounted_started: "accounted sid started []"
  unfolding accounted_def
  by (intro exI [of _ "[]"]) (simp add: started_def in_hand_def)

lemma step_drained:
  assumes "drained s" and "quiet s (a # as)"
  shows "drained (step sid save a s) \<and> quiet (step sid save a s) as"
proof (cases a)
  case (Put task)
  then have t: "to_do s \<noteq> 0" using assms(2) by (auto simp: quiet_def)
  then have "pc s \<noteq> Outer_empty" "pc s \<noteq> Returned" using assms(1) by (auto simp: drained_def)
  then show ?thesis using Put t assms(2) by (auto simp: drained_def quiet_def split: if_splits)
next
  case Signal
  then show ?thesis using assms by (auto simp: drained_def quiet_def split: if_splits)
next
  case Worker
  have q: "quiet (worker_step sid save s) as"
  proof -
    have "to_do (worker_step sid save s) = to_do s"
      by (auto simp: worker_step_def split: place.splits list.splits option.splits)
    then show ?thesis using assms(2) Worker by (auto simp: quiet_def split: if_splits)
  qed
  have "drained (worker_step sid save s)"
    using assms(1)
    by (cases "pc s")
      (auto simp: worker_step_def drained_def split: list.splits option.splits)
  with q Worker show ?thesis by simp
qed

lemma run_drained:
  "drained s \<Longrightarrow> quiet s schedule \<Longrightarrow> drained (run sid save schedule s)"
proof (induction schedule arbitrary: s)
  case Nil
  then show ?case by (simp add: run_def)
next
  case (Cons a as)
  have "drained (step sid save a s) \<and> quiet (step sid save a s) as"
    using Cons.prems by (rule step_drained)
  then have "drained (run sid save as (step sid save a s))"
    using Cons.IH by blast
  then show ?case by (simp add: run_def)
qed

lemma returned_all_saved:
  assumes "stops_before_signal schedule"
    and "pc (run sid save schedule started) = Returned"
  shows "buffer_queue (run sid save schedule started) = [] \<and>
         saved (run sid save schedule started) = map (file_of sid) (puts schedule)"
proof -
  define fin where "fin = run sid save schedule started"
  have "drained started" by (simp add: drained_def started_def)
  moreover have "quiet started schedule" using assms(1) by (simp add: quiet_def started_def)
  ultimately have "drained fin" unfolding fin_def by (rule run_drained)
  then have q: "buffer_queue fin = []" using assms(2) by (simp add: drained_def fin_def)
  have "accounted sid fin ([] @ puts schedule)"
    unfolding fin_def using accounted_started by (rule run_accounted)
  then obtain dn lost where a: "saved fin = map (file_of sid) dn" "in_hand (pc fin) lost"
    "puts schedule = dn @ lost @ buffer_queue fin"
    unfolding accounted_def by auto
  have "lost = []" using a(2) assms(2) by (simp add: in_hand_def fin_def)
  then have "puts schedule = dn" using a(3) q by simp
  then show ?thesis using a(1) q by (simp add: fin_def)
qed

lemma worker_step_winds_down:
  assumes "winding_down s" and "\<forall>b p. save b p = None" and "pc s \<noteq> Returned"
  shows "winding_down (worker_step sid save s) \<and>
         steps_left (worker_step sid save s) < steps_left s"
proof (cases "pc s")
  case Get
  then obtain task rest where "buffer_queue s = task # rest"
    using assms(1) by (cases "buffer_queue s") (auto simp: winding_down_def)
  then show ?thesis using Get assms(1)
    by (simp add: worker_step_def winding_down_def steps_left_def)
next
  case (Save task)
  obtain buffer batch serial where "task = (buffer, batch, serial)" by (cases task) auto
  then show ?thesis using Save assms(1,2)
    by (simp add: worker_step_def winding_down_def steps_left_def)
next
  case Outer_to_do
  then show ?thesis using assms(1)
    by (simp add: worker_step_def winding_down_def steps_left_def)
next
  case Outer_empty
  then show ?thesis using assms(1)
    by (simp add: worker_step_def winding_down_def steps_left_def)
next
  case Inner_empty
  then show ?thesis using assms(1)
    by (simp add: worker_step_def winding_down_def steps_left_def)
next
  case Sleep
  then show ?thesis using assms(1)
    by (simp add: worker_step_def winding_down_def steps_left_def)
next
  case Returned
  then show ?thesis using assms(3) by simp
next
  case (Raised e)
  then show ?thesis using assms(1) by (simp add: winding_down_def)
qed

lemma run_Worker_Suc:
  "run sid save (replicate (Suc n) Worker) s = run sid save (replicate n Worker) (worker_step sid save s)"
  by (simp add: run_def)

lemma returned_stays: "pc s = Returned \<Longrightarrow> pc (run sid save (replicate n Worker) s) = Returned"
proof (induction n arbitrary: s)
  case 0
  then show ?case by (simp add: run_def)
next
  case (Suc n)
  have "pc (worker_step sid save s) = Returned" using Suc.prems by (simp add: worker_step_def)
  then show ?case unfolding run_Worker_Suc by (rule Suc.IH)
qed

lemma worker_finishes:
  assumes "\<forall>b p. save b p = None"
  shows "winding_down s \<Longrightarrow> steps_left s \<le> n \<Longrightarrow>
         pc (run sid save (replicate n Worker) s) = Returned"
proof (induction n arbitrary: s)
  case 0
  then have "steps_left s = 0" by simp
  then have "pc s = Returned"
    using 0(1) by (cases "pc s") (auto simp: steps_left_def winding_down_def Let_def split: if_splits)
  then show ?case by (simp add: run_def)
next
  case (Suc n)
  show ?case
  proof (cases "pc s = Returned")
    case True
    then show ?thesis by (rule returned_stays)
  next
    case False
    have "winding_down (worker_step sid save s) \<and>
         steps_left (worker_step sid save s) < steps_left s"
      using Suc.prems(1) assms False by (rule worker_step_winds_down)
    then have "winding_down (worker_step sid save s)" "steps_left (worker_step sid save s) \<le> n"
      using Suc.prems(2) by auto
    then show ?thesis unfolding run_Worker_Suc by (rule Suc.IH)
  qed
qed

lemma steps_left_bound: "steps_left s \<le> 3 * length (buffer_queue s) + 7"
  by (cases "pc s") (simp_all add: steps_left_def Let_def)

lemma worker_step_to_do: "to_do (worker_step sid save s) = to_do s"
  by (auto simp: worker_step_def split: place.splits list.splits option.splits)

lemma run_to_do:
  "to_do (run sid save schedule s) = (if Signal \<in> set schedule then 0 else to_do s)"
proof (induction schedule arbitrary: s)
  case Nil
  show ?case by (simp add: run_def)
next
  case (Cons a as)
  have r: "run sid save (a # as) s = run sid save as (step sid save a s)"
    by (simp add: run_def)
  show ?case unfolding r Cons.IH
    by (cases a) (simp_all add: worker_step_to_do)
qed

lemma step_sound:
  assumes "\<forall>b p. save b p = None" and "sound s"
  shows "sound (step sid save a s)"
proof (cases a)
  case (Put task)
  then show ?thesis using assms(2) by (simp add: sound_def)
next
  case Signal
  then show ?thesis using assms(2) by (simp add: sound_def)
next
  case Worker
  have "sound (worker_step sid save s)"
    using assms
    by (cases "pc s") (auto simp: worker_step_def sound_def split: list.splits)
  then show ?thesis using Worker by simp
qed

lemma run_sound:
  assumes "\<forall>b p. save b p = None"
  shows "sound s \<Longrightarrow> sound (run sid save schedule s)"
proof (induction schedule arbitrary: s)
  case Nil
  then show ?case by (simp add: run_def)
next
  case (Cons a as)
  have "sound (step sid save a s)" using assms Cons.prems by (rule step_sound)
  then have "sound (run sid save as (step sid save a s))" by (rule Cons.IH)
  then show ?case by (simp add: run_def)
qed

lemma run_queue_length:
  "length (buffer_queue (run sid save schedule started)) \<le> length (puts schedule)"
proof -
  have "accounted sid (run sid save schedule started) ([] @ puts schedule)"
    using accounted_started by (rule run_accounted)
  then obtain dn lost where
    "puts schedule = dn @ lost @ buffer_queue (run sid save schedule started)"
    unfolding accounted_def by auto
  then have "length (puts schedule) =
      length dn + length lost + length (buffer_queue (run sid save schedule started))"
    by (metis length_append add.assoc)
  then show ?thesis by simp
qed

lemma run_append: "run sid save (xs @ ys) s = run sid save ys (run sid save xs s)"
  by (simp add: run_def)

lemma puts_replicate_Worker: "puts (replicate n Worker) = []"
  by (induction n) simp_all

lemma stops_before_signal_no_puts: "puts ys = [] \<Longrightarrow> stops_before_signal ys"
proof (induction ys)
  case Nil
  show ?case by simp
next
  case (Cons a ys)
  then show ?case by (cases a) simp_all
qed

lemma stops_before_signal_append:
  "stops_before_signal xs \<Longrightarrow> puts ys = [] \<Longrightarrow> stops_before_signal (xs @ ys)"
proof (induction xs)
  case Nil
  then show ?case by (simp add: stops_before_signal_no_puts)
next
  case (Cons a xs)
  then show ?case by (cases a) (simp_all add: puts_append)
qed

lemma signalled_worker_returns:
  assumes "Signal \<in> set schedule" and "\<forall>b p. save b p = None"
  shows "pc (run sid save (schedule @ replicate (3 * length (puts schedule) + 7) Worker) started)
     = Returned"
proof -
  define s where "s = run sid save schedule started"
  have "sound started" by (simp add: sound_def started_def)
  then have "sound s" unfolding s_def using assms(2) run_sound by blast
  moreover have "to_do s = 0" unfolding s_def using assms(1) by (simp add: run_to_do)
  ultimately have w: "winding_down s" by (simp add: winding_down_def sound_def)
  have "length (buffer_queue s) \<le> length (puts schedule)"
    unfolding s_def by (rule run_queue_length)
  then have "steps_left s \<le> 3 * length (puts schedule) + 7"
    using steps_left_bound [of s] by simp
  with assms(2) w
  have "pc (run sid save (replicate (3 * length (puts schedule) + 7) Worker) s) = Returned"
    by (rule worker_finishes)
  then show ?thesis by (simp add: run_append s_def)
qed

text \<open>
  C2. Take any interleaving of the main thread's puts, its clearing of the flag and the
  worker's steps in which no put comes after the flag is cleared. If the worker has
  returned from its loop, the queue is empty and the writer has saved every task that
  was ever put, once each, in the order of the puts. And the worker does return: when
  the flag has been cleared and the writer does not raise, \<open>3 * n + 7\<close> further steps
  of the worker (\<open>n\<close> the number of puts) bring it to the end of the loop with
  everything saved. (What happens when the writer raises is C10.)
\<close>

theorem worker_drains_queue:
  assumes "stops_before_signal schedule"
  shows "(pc (run sid save schedule started) = Returned \<longrightarrow>
            buffer_queue (run sid save schedule started) = [] \<and>
            saved (run sid save schedule started) = map (file_of sid) (puts schedule)) \<and>
         (Signal \<in> set schedule \<and> (\<forall>b p. save b p = None) \<longrightarrow>
            pc (run sid save (schedule @ replicate (3 * length (puts schedule) + 7) Worker)
                  started) = Returned \<and>
            buffer_queue (run sid save (schedule @ replicate (3 * length (puts schedule) + 7)
                  Worker) started) = [] \<and>
            saved (run sid save (schedule @ replicate (3 * length (puts schedule) + 7) Worker)
                  started) = map (file_of sid) (puts schedule))"
proof (intro conjI impI)
  assume "pc (run sid save schedule started) = Returned"
  with assms show "buffer_queue (run sid save schedule started) = []"
    and "saved (run sid save schedule started) = map (file_of sid) (puts schedule)"
    using returned_all_saved by blast+
next
  assume a: "Signal \<in> set schedule \<and> (\<forall>b p. save b p = None)"
  define rest where "rest = replicate (3 * length (puts schedule) + 7) Worker"
  have r: "pc (run sid save (schedule @ rest) started) = Returned"
    unfolding rest_def using a by (intro signalled_worker_returns) simp_all
  have p: "puts (schedule @ rest) = puts schedule"
    by (simp add: puts_append rest_def puts_replicate_Worker)
  have s: "stops_before_signal (schedule @ rest)"
    using assms by (rule stops_before_signal_append) (simp add: rest_def puts_replicate_Worker)
  from returned_all_saved [OF s r] p
  show "pc (run sid save (schedule @ replicate (3 * length (puts schedule) + 7) Worker)
                  started) = Returned"
    and "buffer_queue (run sid save (schedule @ replicate (3 * length (puts schedule) + 7)
                  Worker) started) = []"
    and "saved (run sid save (schedule @ replicate (3 * length (puts schedule) + 7) Worker)
                  started) = map (file_of sid) (puts schedule)"
    using r unfolding rest_def by simp_all
qed

lemma decimal_small: "n < 10 \<Longrightarrow> decimal n = [digit n]"
  by (subst decimal.simps) simp

lemma format_03_small: "0 \<le> n \<Longrightarrow> n < 10 \<Longrightarrow> format_03 n = ''00'' @ [digit (nat n)]"
  by (simp add: format_03_def zfill_def decimal_small numeral_2_eq_2)

lemma example_path:
  "frame_path ''20240101T000000'' 7 ''ABC123'' =
     ''images/20240101T000000/Scene_007/cam_ABC123.raw''"
  by (simp add: frame_path_def format_03_small digit_def)

lemma shutdown_files:
  "map (file_of ''S'') (puts shutdown) =
     [(CopyBuf 0, ''images/S/Scene_000/cam_CAM0.raw''),
      (CopyBuf 1, ''images/S/Scene_000/cam_CAM2.raw'')]"
  by (simp add: shutdown_def file_of_def buffer_of_def batch_of_def serial_of_def
      frame_path_def format_03_small digit_def)

theorem worker_drains_queue_witness:
  "stops_before_signal shutdown \<and> Signal \<in> set shutdown \<and>
   pc (run ''S'' never_fails (shutdown @ replicate 13 Worker) started) = Returned \<and>
   buffer_queue (run ''S'' never_fails (shutdown @ replicate 13 Worker) started) = [] \<and>
   saved (run ''S'' never_fails (shutdown @ replicate 13 Worker) started) =
     [(CopyBuf 0, ''images/S/Scene_000/cam_CAM0.raw''),
      (CopyBuf 1, ''images/S/Scene_000/cam_CAM2.raw'')]"
proof -
  have s: "stops_before_signal shutdown" by (simp add: shutdown_def)
  have g: "Signal \<in> set shutdown" by (simp add: shutdown_def)
  have n: "\<forall>b p. never_fails b p = None" by (simp add: never_fails_def)
  have l: "3 * length (puts shutdown) + 7 = 13" by (simp add: shutdown_def)
  note t = worker_drains_queue [OF s, of "''S''" never_fails, THEN conjunct2, THEN mp,
      OF conjI [OF g n], unfolded l]
  have r: "pc (run ''S'' never_fails (shutdown @ replicate 13 Worker) started) = Returned"
    using t by (elim conjE)
  have s': "stops_before_signal (shutdown @ replicate 13 Worker)"
    using s by (rule stops_before_signal_append) (rule puts_replicate_Worker)
  have p: "puts (shutdown @ replicate 13 Worker) = puts shutdown"
    by (simp add: puts_append puts_replicate_Worker)
  note u = worker_drains_queue [OF s', of "''S''" never_fails, THEN conjunct1, THEN mp, OF r,
      unfolded p shutdown_files]
  from s g r u show ?thesis by (intro conjI) simp_all
qed

lemma step_doomed:
  assumes "doomed sid save e s"
  shows "doomed sid save e (step sid save a s) \<and>
         saved (step sid save a s) = saved s \<and>
         buffer_queue (step sid save a s) = buffer_queue s @ puts [a] \<and>
         (a = Worker \<longrightarrow> pc (step sid save a s) = Raised e)"
proof (cases a)
  case (Put task)
  then show ?thesis using assms by (simp add: doomed_def)
next
  case Signal
  then show ?thesis using assms by (simp add: doomed_def)
next
  case Worker
  from assms show ?thesis unfolding doomed_def
  proof
    assume "pc s = Raised e"
    then show "(pc (step sid save a s) = Raised e \<or>
       (\<exists>buffer batch serial. pc (step sid save a s) = Save (buffer, batch, serial) \<and>
          save buffer (frame_path sid batch serial) = Some e)) \<and>
       saved (step sid save a s) = saved s \<and>
       buffer_queue (step sid save a s) = buffer_queue s @ puts [a] \<and>
       (a = Worker \<longrightarrow> pc (step sid save a s) = Raised e)"
      using Worker by (simp add: worker_step_def)
  next
    assume "\<exists>buffer batch serial. pc s = Save (buffer, batch, serial) \<and>
        save buffer (frame_path sid batch serial) = Some e"
    then obtain buffer batch serial where "pc s = Save (buffer, batch, serial)"
      "save buffer (frame_path sid batch serial) = Some e" by blast
    then show "(pc (step sid save a s) = Raised e \<or>
       (\<exists>buffer batch serial. pc (step sid save a s) = Save (buffer, batch, serial) \<and>
          save buffer (frame_path sid batch serial) = Some e)) \<and>
       saved (step sid save a s) = saved s \<and>
       buffer_queue (step sid save a s) = buffer_queue s @ puts [a] \<and>
       (a = Worker \<longrightarrow> pc (step sid save a s) = Raised e)"
      using Worker by (simp add: worker_step_def)
  qed
qed

lemma raised_stays:
  "pc s = Raised e \<Longrightarrow> pc (run sid save schedule s) = Raised e"
proof (induction schedule arbitrary: s)
  case Nil
  then show ?case by (simp add: run_def)
next
  case (Cons a as)
  have "pc (step sid save a s) = Raised e"
    using Cons.prems by (cases a) (simp_all add: worker_step_def)
  then have "pc (run sid save as (step sid save a s)) = Raised e" by (rule Cons.IH)
  then show ?case by (simp add: run_def)
qed

lemma run_doomed:
  "doomed sid save e s \<Longrightarrow>
     doomed sid save e (run sid save schedule s) \<and>
     saved (run sid save schedule s) = saved s \<and>
     buffer_queue (run sid save schedule s) = buffer_queue s @ puts schedule \<and>
     (Worker \<in> set schedule \<longrightarrow> pc (run sid save schedule s) = Raised e)"
proof (induction schedule arbitrary: s)
  case Nil
  then show ?case by (simp add: run_def)
next
  case (Cons a as)
  define s1 where "s1 = step sid save a s"
  have 1: "doomed sid save e s1" "saved s1 = saved s"
    "buffer_queue s1 = buffer_queue s @ puts [a]"
    "a = Worker \<longrightarrow> pc s1 = Raised e"
    unfolding s1_def using step_doomed [OF Cons.prems] by blast+
  have 2: "doomed sid save e (run sid save as s1)" "saved (run sid save as s1) = saved s1"
    "buffer_queue (run sid save as s1) = buffer_queue s1 @ puts as"
    "Worker \<in> set as \<longrightarrow> pc (run sid save as s1) = Raised e"
    using Cons.IH [OF 1(1)] by blast+
  have r: "run sid save (a # as) s = run sid save as s1" by (simp add: run_def s1_def)
  have p: "puts (a # as) = puts [a] @ puts as" using puts_append [of "[a]" as] by simp
  have "Worker \<in> set (a # as) \<longrightarrow> pc (run sid save as s1) = Raised e"
    using 1(4) 2(4) raised_stays [of s1 e sid save as] by auto
  then show ?case unfolding r p using 1 2 by simp
qed

text \<open>
  C10. Let the worker hold a task for which \<open>writer.save\<close> raises \<open>e\<close>. Its next step
  ends \<open>save_image_buffers\<close> with \<open>e\<close>: nothing catches it. Whatever the main thread and
  the worker do from there, with the flag set or cleared, nothing more is saved: the
  task in hand is lost, the tasks in the queue stay there, every later put only
  lengthens the queue, and the worker never reaches the end of its loop.
\<close>

theorem writer_error_ends_worker:
  assumes "pc s = Save (buffer, batch, serial)"
    and "save buffer (frame_path sid batch serial) = Some e"
  shows "pc (worker_step sid save s) = Raised e \<and>
         saved (run sid save schedule s) = saved s \<and>
         buffer_queue (run sid save schedule s) = buffer_queue s @ puts schedule \<and>
         pc (run sid save schedule s) \<noteq> Returned \<and>
         (Worker \<in> set schedule \<longrightarrow> pc (run sid save schedule s) = Raised e)"
proof -
  have d: "doomed sid save e s" using assms by (auto simp: doomed_def)
  have 1: "pc (worker_step sid save s) = Raised e"
    using assms by (simp add: worker_step_def)
  have "doomed sid save e (run sid save schedule s)"
    using run_doomed [OF d] by blast
  then have 2: "pc (run sid save schedule s) \<noteq> Returned" by (auto simp: doomed_def)
  from 1 2 run_doomed [OF d, of schedule] show ?thesis by simp
qed

lemma crash_before_state:
  "run ''S'' disk_full crash_before started =
     \<lparr>buffer_queue = [(CopyBuf 1, 0, ''CAM2'')], to_do = 1, pc = Save (CopyBuf 0, 0, ''CAM0''),
      saved = [], naps = 0\<rparr>"
  by (simp add: run_def crash_before_def started_def worker_step_def)

theorem writer_error_ends_worker_witness:
  "pc (run ''S'' disk_full crash_before started) = Save (CopyBuf 0, 0, ''CAM0'') \<and>
   disk_full (CopyBuf 0) (frame_path ''S'' 0 ''CAM0'') = Some (DeviceError ''disk full'') \<and>
   saved (run ''S'' disk_full crash_after (run ''S'' disk_full crash_before started)) = [] \<and>
   buffer_queue (run ''S'' disk_full crash_after (run ''S'' disk_full crash_before started)) =
     [(CopyBuf 1, 0, ''CAM2''), (CopyBuf 2, 1, ''CAM0'')] \<and>
   pc (run ''S'' disk_full crash_after (run ''S'' disk_full crash_before started)) =
     Raised (DeviceError ''disk full'')"
proof -
  have p: "pc (run ''S'' disk_full crash_before started) = Save (CopyBuf 0, 0, ''CAM0'')"
    by (simp add: crash_before_state)
  have d: "disk_full (CopyBuf 0) (frame_path ''S'' 0 ''CAM0'') = Some (DeviceError ''disk full'')"
    by (simp add: disk_full_def)
  have w: "Worker \<in> set crash_after" by (simp add: crash_after_def)
  have u: "puts crash_after = [(CopyBuf 2, 1, ''CAM0'')]" by (simp add: crash_after_def)
  from writer_error_ends_worker [where save = disk_full and sid = "''S''"
      and schedule = crash_after, OF p d] p d w u
  show ?thesis by (simp add: crash_before_state)
qed

lemma decimal_large: "10 \<le> n \<Longrightarrow> decimal n = decimal (n div 10) @ [digit (n mod 10)]"
  by (subst decimal.simps) simp

lemma length_decimal_pos: "1 \<le> length (decimal n)"
  by (subst decimal.simps) simp

lemma length_decimal_two: "10 \<le> n \<Longrightarrow> n < 100 \<Longrightarrow> length (decimal n) = 2"
  by (simp add: decimal_large decimal_small)

lemma length_decimal_three: "100 \<le> n \<Longrightarrow> 3 \<le> length (decimal n)"
proof -
  assume a: "100 \<le> n"
  then have "10 \<le> n div 10" by simp
  then have "decimal (n div 10) = decimal (n div 10 div 10) @ [digit (n div 10 mod 10)]"
    by (rule decimal_large)
  then have "2 \<le> length (decimal (n div 10))"
    using length_decimal_pos [of "n div 10 div 10"] by simp
  then show ?thesis using a by (simp add: decimal_large)
qed

lemma format_03_pad3: "format_03 (int n) = pad3 n"
proof -
  consider "n < 10" | "10 \<le> n" "n < 100" | "100 \<le> n" by linarith
  then show ?thesis
  proof cases
    case 1
    then show ?thesis
      by (simp add: format_03_def pad3_def zfill_def decimal_small numeral_2_eq_2)
  next
    case 2
    then show ?thesis
      by (simp add: format_03_def pad3_def zfill_def length_decimal_two)
  next
    case 3
    then show ?thesis
      using length_decimal_three [of n] by (simp add: format_03_def pad3_def zfill_def)
  qed
qed

lemma saved_prefix:
  "saved (run sid save schedule started) =
     map (file_of sid) (take (length (saved (run sid save schedule started))) (puts schedule))"
proof -
  have "accounted sid (run sid save schedule started) ([] @ puts schedule)"
    using accounted_started by (rule run_accounted)
  then obtain dn lost where a: "saved (run sid save schedule started) = map (file_of sid) dn"
    "puts schedule = dn @ lost @ buffer_queue (run sid save schedule started)"
    unfolding accounted_def by auto
  have "take (length dn) (puts schedule) = dn" by (simp add: a(2))
  then show ?thesis using a(1) by simp
qed

text \<open>
  C6. In every run of the pipeline the files saved are those of the first tasks put, in
  order, each under the path made of the session identifier the worker was started
  with, the task's batch and the task's serial number: for a batch \<open>n\<close> that is not
  negative, \<open>images/<sessionID>/Scene_<n padded with zeros to three digits>/cam_<serial>.raw\<close>.
  For batch 7, serial \<open>ABC123\<close> and session \<open>20240101T000000\<close> the path is
  \<open>images/20240101T000000/Scene_007/cam_ABC123.raw\<close>.
\<close>

theorem persisted_paths:
  "saved (run sid save schedule started) =
     map (file_of sid) (take (length (saved (run sid save schedule started))) (puts schedule)) \<and>
   file_of sid (buffer, int n, serial) =
     (buffer, ''images/'' @ sid @ ''/Scene_'' @ pad3 n @ ''/cam_'' @ serial @ ''.raw'') \<and>
   frame_path ''20240101T000000'' 7 ''ABC123'' =
     ''images/20240101T000000/Scene_007/cam_ABC123.raw''"
proof (intro conjI)
  show "saved (run sid save schedule started) =
     map (file_of sid) (take (length (saved (run sid save schedule started))) (puts schedule))"
    by (rule saved_prefix)
  show "file_of sid (buffer, int n, serial) =
     (buffer, ''images/'' @ sid @ ''/Scene_'' @ pad3 n @ ''/cam_'' @ serial @ ''.raw'')"
    by (simp add: file_of_def frame_path_def format_03_pad3 buffer_of_def batch_of_def
        serial_of_def)
  show "frame_path ''20240101T000000'' 7 ''ABC123'' =
     ''images/20240101T000000/Scene_007/cam_ABC123.raw''"
    by (rule example_path)
qed

lemma two_batches_saved:
  "length (saved (run ''20240101T000000'' never_fails two_batches started)) = 2"
  by (simp add: run_def two_batches_def started_def worker_step_def never_fails_def)

lemma pad3_123: "pad3 123 = ''123''"
proof -
  have "decimal 123 = decimal 12 @ [digit 3]"
    using decimal_large [of 123] by simp
  also have "decimal 12 = decimal 1 @ [digit 2]"
    using decimal_large [of 12] by simp
  finally show ?thesis by (simp add: pad3_def decimal_small digit_def)
qed

lemma pad3_7: "pad3 7 = ''007''"
  by (simp add: pad3_def decimal_small digit_def)

theorem persisted_paths_witness:
  "saved (run ''20240101T000000'' never_fails two_batches started) =
     [(CopyBuf 0, ''images/20240101T000000/Scene_007/cam_ABC123.raw''),
      (CopyBuf 1, ''images/20240101T000000/Scene_123/cam_ABC123.raw'')]"
proof -
  have p: "take 2 (puts two_batches) = [(CopyBuf 0, int 7, ''ABC123''), (CopyBuf 1, int 123, ''ABC123'')]"
    by (simp add: two_batches_def)
  note t = persisted_paths [of "''20240101T000000''" never_fails two_batches]
  note f = persisted_paths [of "''20240101T000000''", THEN conjunct2, THEN conjunct1]
  have "saved (run ''20240101T000000'' never_fails two_batches started) =
     map (file_of ''20240101T000000'') (take 2 (puts two_batches))"
    using t [THEN conjunct1] unfolding two_batches_saved .
  then show ?thesis unfolding p by (simp add: f pad3_7 pad3_123 del: of_nat_numeral)
qed

end
